theory Spec2Isabelle
  imports Main "HOL-Library.Word"
begin

section \<open>Strings of the source language\<close>

text \<open>
  The program is TypeScript. A string value is a sequence of UTF-16 code units:
  \<^verbatim>\<open>s.length\<close> counts code units, \<^verbatim>\<open>s[i]\<close> and \<^verbatim>\<open>s.substring(a, b)\<close> address code
  units, and two strings are equal (as keys of a \<^verbatim>\<open>Map\<close>, too) when their code unit
  sequences are equal. A code point outside the Basic Multilingual Plane occupies two code
  units (a surrogate pair).
\<close>

type_synonym code_unit = "16 word"
type_synonym jsstring = "code_unit list"

text \<open>ASCII literals, for writing concrete strings.\<close>

definition ascii :: "string \<Rightarrow> jsstring" where
  "ascii s = map (\<lambda>c. of_nat (of_char c)) s"

definition HASH :: code_unit where "HASH = 0x23"
definition SLASH :: code_unit where "SLASH = 0x2F"
definition LBRACKET :: code_unit where "LBRACKET = 0x5B"
definition RBRACKET :: code_unit where "RBRACKET = 0x5D"
definition NEWLINE :: code_unit where "NEWLINE = 0x0A"

text \<open>
  The LineTerminator code points of ECMAScript: LF, CR, LS, PS. The pattern character
  \<^verbatim>\<open>.\<close> (no \<^verbatim>\<open>s\<close> flag) matches every code unit except these.
\<close>

definition is_line_terminator :: "code_unit \<Rightarrow> bool" where
  "is_line_terminator c \<longleftrightarrow> c = 0x0A \<or> c = 0x0D \<or> c = 0x2028 \<or> c = 0x2029"

text \<open>
  The WhiteSpace code points of ECMAScript: TAB, VT, FF, ZWNBSP and the Unicode category
  Zs (SP, NBSP, U+1680, U+2000 to U+200A, U+202F, U+205F, U+3000).
\<close>

definition is_white_space :: "code_unit \<Rightarrow> bool" where
  "is_white_space c \<longleftrightarrow>
     c = 0x09 \<or> c = 0x0B \<or> c = 0x0C \<or> c = 0x20 \<or> c = 0xA0 \<or> c = 0x1680 \<or>
     (0x2000 \<le> c \<and> c \<le> 0x200A) \<or> c = 0x202F \<or> c = 0x205F \<or> c = 0x3000 \<or> c = 0xFEFF"

text \<open>
  The class \<^verbatim>\<open>\s\<close> of a pattern and the code units \<^verbatim>\<open>String.prototype.trim\<close> strips:
  WhiteSpace and LineTerminator.
\<close>

definition is_space :: "code_unit \<Rightarrow> bool" where
  "is_space c \<longleftrightarrow> is_white_space c \<or> is_line_terminator c"

text \<open>\<^verbatim>\<open>s.trim()\<close>: strip the white space at both ends.\<close>

definition trim :: "jsstring \<Rightarrow> jsstring" where
  "trim s = rev (dropWhile is_space (rev (dropWhile is_space s)))"

text \<open>
  \<^verbatim>\<open>s.split(sep)\<close> for a separator of one code unit: the pieces between the occurrences
  of the separator, empty pieces included; the empty string gives one empty piece.
\<close>

fun split :: "code_unit \<Rightarrow> jsstring \<Rightarrow> jsstring list" where
  "split sep [] = [[]]"
| "split sep (c # cs) =
     (if c = sep then [] # split sep cs
      else (case split sep cs of
              [] \<Rightarrow> [[c]]
            | piece # pieces \<Rightarrow> (c # piece) # pieces))"

text \<open>
  \<^verbatim>\<open>s.substring(a, b)\<close> for non-negative integers: both arguments are clamped to the
  length of the string, and swapped when the first is the larger.
\<close>

definition substring :: "jsstring \<Rightarrow> nat \<Rightarrow> nat \<Rightarrow> jsstring" where
  "substring s a b =
     (let a' = min a (length s); b' = min b (length s);
          from = min a' b'; to = max a' b'
      in take (to - from) (drop from s))"

section \<open>The dictionary module\<close>

subsection \<open>Entries\<close>

text \<open>\<^verbatim>\<open>interface DictionaryEntry\<close>.\<close>

record DictionaryEntry =
  traditional :: jsstring
  simplified :: jsstring
  pinyin :: jsstring
  definitions :: "jsstring list"

subsection \<open>The pattern of \<^verbatim>\<open>parseLine\<close>\<close>

text \<open>
  \<^verbatim>\<open>/^(?!#)(.+?)\s(.+?)\s\[(.+?)\]\s\/(.+?)\/$/\<close>, run by \<^verbatim>\<open>String.prototype.match\<close>.
  The pattern has no flags: \<^verbatim>\<open>^\<close> and \<^verbatim>\<open>$\<close> match at the two ends of the input only (so a
  match can only start at index 0), and the matcher works on code units.

  A group \<^verbatim>\<open>(.+?)\<close> is lazy: the backtracking matcher first lets it take one code unit
  and runs the rest of the pattern; each time the rest fails the group takes one code unit
  more, and it fails when the next code unit is a line terminator or the input ends.
  \<open>lazy_dot_plus k acc s\<close> is that loop: \<open>acc\<close> is what the group holds already,
  \<open>s\<close> the input left, \<open>k\<close> the rest of the pattern.
\<close>

fun lazy_dot_plus ::
  "(jsstring \<Rightarrow> 'a option) \<Rightarrow> jsstring \<Rightarrow> jsstring \<Rightarrow> (jsstring \<times> 'a) option" where
  "lazy_dot_plus k acc [] = None"
| "lazy_dot_plus k acc (c # cs) =
     (if is_line_terminator c then None
      else (case k cs of
              Some r \<Rightarrow> Some (acc @ [c], r)
            | None \<Rightarrow> lazy_dot_plus k (acc @ [c]) cs))"

text \<open>\<^verbatim>\<open>\/$\<close>: one slash, then the end of the input.\<close>

definition match_end :: "jsstring \<Rightarrow> unit option" where
  "match_end s = (if s = [SLASH] then Some () else None)"

text \<open>\<^verbatim>\<open>\]\s\/(.+?)\/$\<close>\<close>

definition match_after_pinyin :: "jsstring \<Rightarrow> (jsstring \<times> unit) option" where
  "match_after_pinyin s =
     (case s of
        c1 # c2 # c3 # rest \<Rightarrow>
          if c1 = RBRACKET \<and> is_space c2 \<and> c3 = SLASH
          then lazy_dot_plus match_end [] rest else None
      | _ \<Rightarrow> None)"

text \<open>\<^verbatim>\<open>\s\[(.+?)\]\s\/(.+?)\/$\<close>\<close>

definition match_after_simplified ::
  "jsstring \<Rightarrow> (jsstring \<times> jsstring \<times> unit) option" where
  "match_after_simplified s =
     (case s of
        c1 # c2 # rest \<Rightarrow>
          if is_space c1 \<and> c2 = LBRACKET
          then lazy_dot_plus match_after_pinyin [] rest else None
      | _ \<Rightarrow> None)"

text \<open>\<^verbatim>\<open>\s(.+?)\s\[(.+?)\]\s\/(.+?)\/$\<close>\<close>

definition match_after_traditional ::
  "jsstring \<Rightarrow> (jsstring \<times> jsstring \<times> jsstring \<times> unit) option" where
  "match_after_traditional s =
     (case s of
        c1 # rest \<Rightarrow>
          if is_space c1 then lazy_dot_plus match_after_simplified [] rest else None
      | _ \<Rightarrow> None)"

text \<open>
  The whole pattern. The lookahead \<^verbatim>\<open>(?!#)\<close> at index 0 fails when the first code unit is
  \<^verbatim>\<open>#\<close>. The result holds the four captured groups.
\<close>

definition starts_with :: "code_unit \<Rightarrow> jsstring \<Rightarrow> bool" where
  "starts_with c s = (case s of [] \<Rightarrow> False | c' # _ \<Rightarrow> c' = c)"

definition regex_match ::
  "jsstring \<Rightarrow> (jsstring \<times> jsstring \<times> jsstring \<times> jsstring) option" where
  "regex_match s =
     (if starts_with HASH s then None
      else (case lazy_dot_plus match_after_traditional [] s of
              None \<Rightarrow> None
            | Some (g1, g2, g3, g4, _) \<Rightarrow> Some (g1, g2, g3, g4)))"

subsection \<open>\<^verbatim>\<open>Dictionary.parseLine\<close>\<close>

definition parseLine :: "jsstring \<Rightarrow> DictionaryEntry option" where
  "parseLine line =
     (case regex_match (trim line) of
        Some (g1, g2, g3, definitionsStr) \<Rightarrow>
          Some \<lparr>traditional = g1, simplified = g2, pinyin = g3,
                definitions = filter (\<lambda>def. length def > 0) (split SLASH definitionsStr)\<rparr>
      | None \<Rightarrow> None)"

subsection \<open>The \<^verbatim>\<open>Map\<close> of entries\<close>

text \<open>
  \<^verbatim>\<open>private entries = new Map<string, DictionaryEntry>()\<close>. A \<^verbatim>\<open>Map\<close> keeps its keys in
  insertion order, and \<^verbatim>\<open>set\<close> on a key that is present replaces the value in place: an
  association list without duplicate keys.
\<close>

type_synonym entry_map = "(jsstring \<times> DictionaryEntry) list"

fun map_set :: "jsstring \<Rightarrow> DictionaryEntry \<Rightarrow> entry_map \<Rightarrow> entry_map" where
  "map_set k v [] = [(k, v)]"
| "map_set k v ((k', v') # m) = (if k' = k then (k, v) # m else (k', v') # map_set k v m)"

definition map_get :: "entry_map \<Rightarrow> jsstring \<Rightarrow> DictionaryEntry option" where
  "map_get m k = map_of m k"

definition map_has :: "entry_map \<Rightarrow> jsstring \<Rightarrow> bool" where
  "map_has m k \<longleftrightarrow> map_of m k \<noteq> None"

definition map_keys :: "entry_map \<Rightarrow> jsstring list" where
  "map_keys m = map fst m"

subsection \<open>The class \<^verbatim>\<open>Dictionary\<close>\<close>

record Dictionary =
  entries :: entry_map
  isInitialized :: bool
  maxKeyLength :: nat

text \<open>\<^verbatim>\<open>new Dictionary()\<close>: the field initialisers.\<close>

definition new_Dictionary :: Dictionary where
  "new_Dictionary = \<lparr>entries = [], isInitialized = False, maxKeyLength = 0\<rparr>"

text \<open>Errors thrown, and what \<^verbatim>\<open>console.error\<close> has printed.\<close>

datatype js_error = Error string

type_synonym console = "(string \<times> js_error option) list"

text \<open>
  What the two awaited calls of \<^verbatim>\<open>initialize\<close> deliver: \<^verbatim>\<open>fetch(dataUrl)\<close> rejects, or
  resolves with a response that has the flag \<^verbatim>\<open>ok\<close> and whose \<^verbatim>\<open>text()\<close> rejects or resolves
  with the body.
\<close>

datatype fetch_outcome =
  Fetch_rejected js_error
| Fetch_response bool "js_error + jsstring"

text \<open>The body of the loop over the lines.\<close>

definition insert_line :: "jsstring \<Rightarrow> entry_map \<Rightarrow> entry_map" where
  "insert_line line m =
     (case parseLine line of
        Some entry \<Rightarrow> map_set (simplified entry) entry (map_set (traditional entry) entry m)
      | None \<Rightarrow> m)"

text \<open>The loop that finds the longest key.\<close>

definition longest_key :: "jsstring list \<Rightarrow> nat" where
  "longest_key ks = fold (\<lambda>key maxLen. if length key > maxLen then length key else maxLen) ks 0"

text \<open>
  The synchronous part of \<^verbatim>\<open>initialize\<close>, from \<^verbatim>\<open>rawData.split('\n')\<close> to the assignment
  of \<^verbatim>\<open>maxKeyLength\<close>: the construction of the index from the raw text.
\<close>

definition build :: "jsstring \<Rightarrow> Dictionary \<Rightarrow> Dictionary" where
  "build rawData d =
     (let lines = split NEWLINE rawData;
          d1 = d\<lparr>entries := fold insert_line lines (entries d)\<rparr>;
          d2 = d1\<lparr>isInitialized := True\<rparr>;
          maxLen = longest_key (map_keys (entries d2))
      in d2\<lparr>maxKeyLength := maxLen\<rparr>)"

text \<open>The \<^verbatim>\<open>try\<close> block of \<^verbatim>\<open>initialize\<close>: \<open>Inl\<close> is the error thrown.\<close>

definition initialize_try :: "string \<Rightarrow> fetch_outcome \<Rightarrow> Dictionary \<Rightarrow> js_error + Dictionary" where
  "initialize_try dataUrl outcome d =
     (case outcome of
        Fetch_rejected e \<Rightarrow> Inl e
      | Fetch_response ok body \<Rightarrow>
          if \<not> ok then Inl (Error (''Failed to fetch dictionary data from '' @ dataUrl))
          else (case body of
                  Inl e \<Rightarrow> Inl e
                | Inr rawData \<Rightarrow> Inr (build rawData d)))"

text \<open>
  \<^verbatim>\<open>initialize\<close>: the \<^verbatim>\<open>catch\<close> block prints the error and throws it again. The result is
  the error or a normal return, the object afterwards, and the console afterwards.
\<close>

definition initialize ::
  "string \<Rightarrow> fetch_outcome \<Rightarrow> Dictionary \<Rightarrow> console \<Rightarrow> (js_error + unit) \<times> Dictionary \<times> console" where
  "initialize dataUrl outcome d con =
     (case initialize_try dataUrl outcome d of
        Inl error \<Rightarrow> (Inl error, d, con @ [(''Initialization failed:'', Some error)])
      | Inr d' \<Rightarrow> (Inr (), d', con))"

text \<open>\<^verbatim>\<open>get\<close>: the result and the console afterwards.\<close>

definition get :: "Dictionary \<Rightarrow> jsstring \<Rightarrow> console \<Rightarrow> DictionaryEntry option \<times> console" where
  "get d character con =
     (if \<not> isInitialized d
      then (None, con @ [(''Attempted to access dictionary before it was initialized.'', None)])
      else (map_get (entries d) character, con))"

text \<open>
  \<^verbatim>\<open>findLongestMatch\<close>. \<open>scan_lengths d text startIndex n\<close> is the \<^verbatim>\<open>for\<close> loop from
  \<^verbatim>\<open>length = n\<close> down. The start index is a non-negative integer, as it is for the
  callers. The function prints nothing.
\<close>

fun scan_lengths :: "Dictionary \<Rightarrow> jsstring \<Rightarrow> nat \<Rightarrow> nat \<Rightarrow> jsstring option" where
  "scan_lengths d text startIndex 0 = None"
| "scan_lengths d text startIndex (Suc n) =
     (if startIndex + Suc n \<le> length text then
        (let substring' = substring text startIndex (startIndex + Suc n)
         in if map_has (entries d) substring' then Some substring'
            else scan_lengths d text startIndex n)
      else scan_lengths d text startIndex n)"

definition findLongestMatch :: "Dictionary \<Rightarrow> jsstring \<Rightarrow> nat \<Rightarrow> jsstring option" where
  "findLongestMatch d text startIndex =
     (if \<not> isInitialized d then None
      else scan_lengths d text startIndex (maxKeyLength d))"

subsection \<open>\<^verbatim>\<open>Dictionary.getInstance\<close> and its callers\<close>

text \<open>
  \<^verbatim>\<open>getInstance\<close> is an \<^verbatim>\<open>async\<close> function on one thread: a call runs without interruption
  up to an \<^verbatim>\<open>await\<close>, and other calls run while it is suspended there. The only suspension
  is inside \<^verbatim>\<open>initialize\<close>, waiting for the data (\<^verbatim>\<open>fetch\<close>, then \<^verbatim>\<open>response.text()\<close>; no
  field changes between the two). The process state holds the static field
  \<^verbatim>\<open>Dictionary.instance\<close> (\<open>None\<close> while it is undefined) with the fields of the one object
  it refers to, the call suspended in \<^verbatim>\<open>initialize\<close>, the number of \<^verbatim>\<open>fetch\<close> requests sent,
  the console, and the promises settled so far: for each the caller, and the error or the
  object as it is at the moment the caller receives the reference to it.
\<close>

type_synonym caller = nat

record process =
  Dictionary_instance :: "Dictionary option"
  suspended :: "caller option"
  fetches :: nat
  printed :: console
  settled :: "(caller \<times> (js_error + Dictionary)) list"

definition start :: process where
  "start = \<lparr>Dictionary_instance = None, suspended = None, fetches = 0, printed = [], settled = []\<rparr>"

datatype event =
  Call caller
| Data_arrives fetch_outcome

definition dataUrl :: string where
  "dataUrl = ''/cedict_ts.u8''"

text \<open>
  \<open>Call c\<close>: \<^verbatim>\<open>getInstance()\<close> is called. When \<^verbatim>\<open>Dictionary.instance\<close> is undefined the
  object is created and assigned, \<^verbatim>\<open>initialize\<close> sends the request and the call is
  suspended; otherwise the call returns \<^verbatim>\<open>Dictionary.instance\<close>.
  \<open>Data_arrives outcome\<close>: the suspended call resumes, \<^verbatim>\<open>initialize\<close> finishes, and the
  call returns the instance or throws.
\<close>

definition step :: "event \<Rightarrow> process \<Rightarrow> process" where
  "step ev p =
     (case ev of
        Call c \<Rightarrow>
          (case Dictionary_instance p of
             None \<Rightarrow> p\<lparr>Dictionary_instance := Some new_Dictionary, suspended := Some c,
                       fetches := fetches p + 1\<rparr>
           | Some d \<Rightarrow> p\<lparr>settled := settled p @ [(c, Inr d)]\<rparr>)
      | Data_arrives outcome \<Rightarrow>
          (case (suspended p, Dictionary_instance p) of
             (Some c, Some d) \<Rightarrow>
               (case initialize dataUrl outcome d (printed p) of
                  (Inl error, d', con) \<Rightarrow>
                    p\<lparr>Dictionary_instance := Some d', suspended := None, printed := con,
                      settled := settled p @ [(c, Inl error)]\<rparr>
                | (Inr _, d', con) \<Rightarrow>
                    p\<lparr>Dictionary_instance := Some d', suspended := None, printed := con,
                      settled := settled p @ [(c, Inr d')]\<rparr>)
           | _ \<Rightarrow> p))"

definition run :: "event list \<Rightarrow> process \<Rightarrow> process" where
  "run evs p = fold step evs p"

section \<open>The reader component\<close>

text \<open>
  The loop of \<^verbatim>\<open>InteractiveText\<close> that cuts a text into segments. \<^verbatim>\<open>if (match)\<close> takes the
  first branch when \<^verbatim>\<open>match\<close> is neither \<^verbatim>\<open>null\<close> nor the empty string.
\<close>

record segment =
  content :: jsstring
  isMatch :: bool
  startIndex :: nat

function segment_loop :: "Dictionary \<Rightarrow> jsstring \<Rightarrow> nat \<Rightarrow> segment list \<Rightarrow> segment list" where
  "segment_loop dictionary text i segments =
     (if i < length text then
        (case findLongestMatch dictionary text i of
           Some (c # cs) \<Rightarrow>
             segment_loop dictionary text (i + length (c # cs))
               (segments @ [\<lparr>content = c # cs, isMatch = True, startIndex = i\<rparr>])
         | _ \<Rightarrow>
             segment_loop dictionary text (i + 1)
               (segments @ [\<lparr>content = [text ! i], isMatch = False, startIndex = i\<rparr>]))
      else segments)"
  by pat_completeness auto
termination
  by (relation "measure (\<lambda>(dictionary, text, i, segments). length text - i)") auto

definition segments_of :: "Dictionary \<Rightarrow> jsstring \<Rightarrow> segment list" where
  "segments_of dictionary text = segment_loop dictionary text 0 []"

section \<open>Notions of the specification\<close>

subsection \<open>The entry shape\<close>

text \<open>
  The shape of an entry line in the specification,
  \<^verbatim>\<open><traditional> <simplified> [<pronunciation>] /<def1>/.../<defN>/\<close>, where the two
  headwords are white-space-delimited runs: each is a non-empty run of code units none of
  which is white space. The pronunciation and the gloss segment are non-empty runs without
  a line terminator; there is one white space code unit where the shape has a blank, the
  brackets are around the pronunciation, and a slash stands before and after the gloss
  segment.
\<close>

definition headword :: "jsstring \<Rightarrow> bool" where
  "headword s \<longleftrightarrow> s \<noteq> [] \<and> list_all (\<lambda>c. \<not> is_space c) s"

definition dot_run :: "jsstring \<Rightarrow> bool" where
  "dot_run s \<longleftrightarrow> s \<noteq> [] \<and> list_all (\<lambda>c. \<not> is_line_terminator c) s"

definition entry_shape :: "jsstring \<Rightarrow> bool" where
  "entry_shape s \<longleftrightarrow>
     (\<exists>t sm p g w1 w2 w3.
        headword t \<and> headword sm \<and> dot_run p \<and> dot_run g
        \<and> is_space w1 \<and> is_space w2 \<and> is_space w3
        \<and> s = t @ [w1] @ sm @ [w2, LBRACKET] @ p @ [RBRACKET, w3, SLASH] @ g @ [SLASH])"

text \<open>
  The wider shape: the same, but the headwords too are only required to be non-empty runs
  without a line terminator, so that any of the four fields may itself hold white space,
  brackets or slashes.
\<close>

definition pattern_shape :: "jsstring \<Rightarrow> bool" where
  "pattern_shape s \<longleftrightarrow>
     (\<exists>t sm p g w1 w2 w3.
        dot_run t \<and> dot_run sm \<and> dot_run p \<and> dot_run g
        \<and> is_space w1 \<and> is_space w2 \<and> is_space w3
        \<and> s = t @ [w1] @ sm @ [w2, LBRACKET] @ p @ [RBRACKET, w3, SLASH] @ g @ [SLASH])"

subsection \<open>Glosses\<close>

text \<open>
  The pieces of a gloss segment are the strings that, written one after the other with a
  slash between each two, give the segment, and that hold no slash themselves.
  \<open>join sep pieces\<close> writes the pieces with the separator between them.
\<close>

fun join :: "code_unit \<Rightarrow> jsstring list \<Rightarrow> jsstring" where
  "join sep [] = []"
| "join sep [p] = p"
| "join sep (p # q # ps) = p @ sep # join sep (q # ps)"

subsection \<open>Segments\<close>

text \<open>
  \<open>contiguous i segs n\<close>: the segments, in order, are not empty, the first starts at \<open>i\<close>,
  each next one starts where the one before ends, and the last ends at \<open>n\<close>. So they do not
  overlap and cover the positions from \<open>i\<close> up to \<open>n\<close>.
\<close>

fun contiguous :: "nat \<Rightarrow> segment list \<Rightarrow> nat \<Rightarrow> bool" where
  "contiguous i [] n \<longleftrightarrow> i = n"
| "contiguous i (s # ss) n \<longleftrightarrow>
     startIndex s = i \<and> content s \<noteq> [] \<and> contiguous (i + length (content s)) ss n"

text \<open>
  A matched segment holds what \<^verbatim>\<open>findLongestMatch\<close> returns at its start; an unmatched one
  holds the one code unit there, where \<^verbatim>\<open>findLongestMatch\<close> returns null.
\<close>

definition follows_loop :: "Dictionary \<Rightarrow> jsstring \<Rightarrow> segment \<Rightarrow> bool" where
  "follows_loop d text s \<longleftrightarrow>
     (if isMatch s then findLongestMatch d text (startIndex s) = Some (content s)
      else findLongestMatch d text (startIndex s) = None \<and> content s = [text ! startIndex s])"

subsection \<open>Keys that match at a position\<close>

text \<open>
  A key of the index matches at position \<open>i\<close> when the text holds it there, within the
  bounds of the text.
\<close>

definition key_matches :: "Dictionary \<Rightarrow> jsstring \<Rightarrow> nat \<Rightarrow> jsstring \<Rightarrow> bool" where
  "key_matches d text i k \<longleftrightarrow>
     map_has (entries d) k \<and> i + length k \<le> length text
     \<and> substring text i (i + length k) = k"

subsection \<open>Insertions\<close>

text \<open>
  The insertions that the specification asks of the construction, in source order: for
  each line that parses to an entry, the entry under its traditional headword, then the
  entry under its simplified headword. With last-write-wins, a key holds the value of the
  last insertion made under it.
\<close>

definition line_insertions :: "jsstring \<Rightarrow> (jsstring \<times> DictionaryEntry) list" where
  "line_insertions line =
     (case parseLine line of
        Some e \<Rightarrow> [(traditional e, e), (simplified e, e)]
      | None \<Rightarrow> [])"

definition insertions :: "jsstring \<Rightarrow> (jsstring \<times> DictionaryEntry) list" where
  "insertions rawData = concat (map line_insertions (split NEWLINE rawData))"

fun last_write :: "('k \<times> 'v) list \<Rightarrow> 'k \<Rightarrow> 'v option" where
  "last_write [] k = None"
| "last_write ((k', v) # ins) k =
     (case last_write ins k of
        Some w \<Rightarrow> Some w
      | None \<Rightarrow> if k' = k then Some v else None)"

text \<open>The insertions carried out on a \<^verbatim>\<open>Map\<close>, one \<^verbatim>\<open>set\<close> after the other.\<close>

definition apply_insertions :: "(jsstring \<times> DictionaryEntry) list \<Rightarrow> entry_map \<Rightarrow> entry_map" where
  "apply_insertions ins m = fold (\<lambda>(k, v). map_set k v) ins m"

subsection \<open>Characters\<close>

text \<open>
  The characters (code points) of a string: a high surrogate followed by a low surrogate
  is one character outside the Basic Multilingual Plane, every other code unit is a
  character by itself. Character positions and character lengths count these.
\<close>

definition is_surrogate :: "code_unit \<Rightarrow> bool" where
  "is_surrogate c \<longleftrightarrow> 0xD800 \<le> c \<and> c \<le> 0xDFFF"

definition is_high_surrogate :: "code_unit \<Rightarrow> bool" where
  "is_high_surrogate c \<longleftrightarrow> 0xD800 \<le> c \<and> c \<le> 0xDBFF"

definition is_low_surrogate :: "code_unit \<Rightarrow> bool" where
  "is_low_surrogate c \<longleftrightarrow> 0xDC00 \<le> c \<and> c \<le> 0xDFFF"

fun decode_utf16 :: "jsstring \<Rightarrow> nat list" where
  "decode_utf16 [] = []"
| "decode_utf16 [c] = [unat c]"
| "decode_utf16 (c1 # c2 # cs) =
     (if is_high_surrogate c1 \<and> is_low_surrogate c2
      then (0x10000 + (unat c1 - 0xD800) * 0x400 + (unat c2 - 0xDC00)) # decode_utf16 cs
      else unat c1 # decode_utf16 (c2 # cs))"

definition char_length :: "jsstring \<Rightarrow> nat" where
  "char_length s = length (decode_utf16 s)"

definition longest_key_in_characters :: "jsstring list \<Rightarrow> nat" where
  "longest_key_in_characters ks = Max (insert 0 (char_length ` set ks))"

text \<open>
  Some key of the index equals the characters of the text from character position \<open>i\<close>
  on; the same with code units and code unit position \<open>i\<close>.
\<close>

definition char_match_at :: "Dictionary \<Rightarrow> jsstring \<Rightarrow> nat \<Rightarrow> bool" where
  "char_match_at d text i \<longleftrightarrow>
     list_ex (\<lambda>k. i + char_length k \<le> char_length text
                \<and> take (char_length k) (drop i (decode_utf16 text)) = decode_utf16 k)
       (map_keys (entries d))"

definition code_unit_match_at :: "Dictionary \<Rightarrow> jsstring \<Rightarrow> nat \<Rightarrow> bool" where
  "code_unit_match_at d text i \<longleftrightarrow>
     list_ex (\<lambda>k. i + length k \<le> length text \<and> take (length k) (drop i text) = k)
       (map_keys (entries d))"

subsection \<open>Examples\<close>

text \<open>The line \<^verbatim>\<open>U+50A2 U+4FF1, U+5BB6 U+5177, [jia1 ju4] /furniture/\<close> of the specification.\<close>

definition example_line :: jsstring where
  "example_line = [0x50A2, 0x4FF1, 0x20, 0x5BB6, 0x5177] @ ascii '' [jia1 ju4] /furniture/''"

definition example_entry :: DictionaryEntry where
  "example_entry =
     \<lparr>traditional = [0x50A2, 0x4FF1], simplified = [0x5BB6, 0x5177],
      pinyin = ascii ''jia1 ju4'', definitions = [ascii ''furniture'']\<rparr>"

text \<open>
  A source of three lines (a comment, the example line with CR LF, a line that is no
  entry), and the text of the specification's example.
\<close>

definition example_raw :: jsstring where
  "example_raw = ascii ''# CC-CEDICT'' @ [NEWLINE] @ example_line @ [0x0D, NEWLINE]
     @ ascii ''not an entry'' @ [NEWLINE]"

definition example_text :: jsstring where
  "example_text = [0x4ED6, 0x8CB7, 0x4E86, 0x5BB6, 0x5177]"

definition example_Dictionary :: Dictionary where
  "example_Dictionary =
     \<lparr>entries = [([0x50A2, 0x4FF1], example_entry), ([0x5BB6, 0x5177], example_entry)],
      isInitialized = True, maxKeyLength = 2\<rparr>"

text \<open>Two lines that share the key \<^verbatim>\<open>B\<close>.\<close>

definition collision_raw :: jsstring where
  "collision_raw = ascii ''A B [p] /first/'' @ [NEWLINE] @ ascii ''B C [q] /second/''"

definition first_entry :: DictionaryEntry where
  "first_entry = \<lparr>traditional = ascii ''A'', simplified = ascii ''B'', pinyin = ascii ''p'',
                   definitions = [ascii ''first'']\<rparr>"

definition second_entry :: DictionaryEntry where
  "second_entry = \<lparr>traditional = ascii ''B'', simplified = ascii ''C'', pinyin = ascii ''q'',
                    definitions = [ascii ''second'']\<rparr>"

text \<open>
  A headword outside the Basic Multilingual Plane (U+20000, the surrogate pair D840 DC00),
  and a text that holds it before U+597D.
\<close>

definition astral_raw :: jsstring where
  "astral_raw = [0xD840, 0xDC00, 0x20, 0xD840, 0xDC00] @ ascii '' [x] /y/''"

definition hao_raw :: jsstring where
  "hao_raw = [0x597D, 0x20, 0x597D] @ ascii '' [hao3] /good/''"

definition astral_text :: jsstring where
  "astral_text = [0xD840, 0xDC00, 0x597D]"

section \<open>Properties\<close>

subsection \<open>Runs of \<^verbatim>\<open>getInstance\<close>\<close>

lemma run_append: "run (evs @ evs') p = run evs' (run evs p)"
  by (simp add: run_def)

lemma run_Cons: "run (ev # evs) p = run evs (step ev p)"
  by (simp add: run_def)

lemma run_Nil: "run [] p = p"
  by (simp add: run_def)

lemma step_Call_Some:
  "Dictionary_instance p = Some d \<Longrightarrow> step (Call c) p = p\<lparr>settled := settled p @ [(c, Inr d)]\<rparr>"
  by (simp add: step_def)

text \<open>Once the static field is assigned, every call returns at once with the object as it is.\<close>

lemma run_Calls:
  "Dictionary_instance p = Some d \<Longrightarrow>
   run (map Call cs) p = p\<lparr>settled := settled p @ map (\<lambda>c. (c, Inr d)) cs\<rparr>"
proof (induction cs arbitrary: p)
  case Nil
  then show ?case by (simp add: run_Nil)
next
  case (Cons c cs)
  have "Dictionary_instance (step (Call c) p) = Some d"
    using Cons.prems by (simp add: step_Call_Some)
  from Cons.IH [OF this] show ?case
    using Cons.prems by (simp add: run_Cons step_Call_Some)
qed

text \<open>The request for the data is sent at most once, whatever the order of events.\<close>

lemma step_fetches_le:
  "fetches p \<le> 1 \<Longrightarrow> (Dictionary_instance p = None \<longrightarrow> fetches p = 0) \<Longrightarrow>
   fetches (step ev p) \<le> 1 \<and> (Dictionary_instance (step ev p) = None \<longrightarrow> fetches (step ev p) = 0)"
  by (auto simp: step_def split: event.splits option.splits prod.splits sum.splits)

lemma run_fetches_le:
  "fetches p \<le> 1 \<Longrightarrow> (Dictionary_instance p = None \<longrightarrow> fetches p = 0) \<Longrightarrow>
   fetches (run evs p) \<le> 1"
proof (induction evs arbitrary: p)
  case Nil
  then show ?case by (simp add: run_Nil)
next
  case (Cons ev evs)
  from step_fetches_le [OF Cons.prems, of ev] Cons.IH [of "step ev p"]
  show ?case by (simp add: run_Cons)
qed

lemma fetch_at_most_once: "fetches (run evs start) \<le> 1"
  by (rule run_fetches_le) (simp_all add: start_def)

lemma initialize_rejected:
  "initialize url (Fetch_rejected e) d con = (Inl e, d, con @ [(''Initialization failed:'', Some e)])"
  by (simp add: initialize_def initialize_try_def)

lemma initialize_not_ok:
  "initialize url (Fetch_response False body) d con =
     (Inl (Error (''Failed to fetch dictionary data from '' @ url)), d,
      con @ [(''Initialization failed:'', Some (Error (''Failed to fetch dictionary data from '' @ url)))])"
  by (simp add: initialize_def initialize_try_def)

text \<open>
  A first call, further calls while it waits, a failure of \<^verbatim>\<open>initialize\<close>, and further
  calls after it.
\<close>

lemma run_failed:
  assumes "initialize dataUrl outcome new_Dictionary [] = (Inl e, new_Dictionary, con)"
  shows "run (Call c # map Call cs1 @ [Data_arrives outcome] @ map Call cs2) start =
     \<lparr>Dictionary_instance = Some new_Dictionary, suspended = None, fetches = 1,
      printed = con,
      settled = map (\<lambda>c'. (c', Inr new_Dictionary)) cs1 @ [(c, Inl e)]
                @ map (\<lambda>c'. (c', Inr new_Dictionary)) cs2\<rparr>"
proof -
  let ?p1 = "\<lparr>Dictionary_instance = Some new_Dictionary, suspended = Some c, fetches = 1,
              printed = [], settled = []\<rparr>"
  let ?p2 = "?p1\<lparr>settled := map (\<lambda>c'. (c', Inr new_Dictionary)) cs1\<rparr>"
  let ?p3 = "\<lparr>Dictionary_instance = Some new_Dictionary, suspended = None, fetches = 1,
      printed = con,
      settled = map (\<lambda>c'. (c', Inr new_Dictionary)) cs1 @ [(c, Inl e)]\<rparr>"
  have 1: "step (Call c) start = ?p1"
    by (simp add: step_def start_def)
  have 2: "run (map Call cs1) ?p1 = ?p2"
    by (subst run_Calls [where d = new_Dictionary]) simp_all
  have 3: "step (Data_arrives outcome) ?p2 = ?p3"
    using assms by (simp add: step_def)
  have 4: "run (map Call cs2) ?p3 = ?p3\<lparr>settled := settled ?p3 @ map (\<lambda>c'. (c', Inr new_Dictionary)) cs2\<rparr>"
    by (rule run_Calls) simp
  have "run (Call c # map Call cs1 @ [Data_arrives outcome] @ map Call cs2) start =
      run (map Call cs2) (step (Data_arrives outcome) (run (map Call cs1) (step (Call c) start)))"
    by (simp only: run_Cons run_append run_Nil)
  also have "\<dots> = ?p3\<lparr>settled := settled ?p3 @ map (\<lambda>c'. (c', Inr new_Dictionary)) cs2\<rparr>"
    by (simp only: 1 2 3 4)
  finally show ?thesis by simp
qed

text \<open>
  C10. When the first call of \<^verbatim>\<open>getInstance\<close> (caller \<open>c\<close>) fails in \<^verbatim>\<open>initialize\<close>, because
  \<^verbatim>\<open>fetch\<close> rejects with \<open>e\<close> or because the response is not ok, that call rejects with the
  error, and every other call, made while the first waits (\<open>cs1\<close>) or after the failure
  (\<open>cs2\<close>), resolves with the one instance, which was never initialised: the request was
  sent once and is not sent again, nothing but the first failure is printed, and on that
  instance \<^verbatim>\<open>get\<close> returns undefined and \<^verbatim>\<open>findLongestMatch\<close> returns null whatever the
  arguments.
\<close>

theorem failed_initialization_poisons:
  "run (Call c # map Call cs1 @ [Data_arrives (Fetch_rejected e)] @ map Call cs2) start =
     \<lparr>Dictionary_instance = Some new_Dictionary, suspended = None, fetches = 1,
      printed = [(''Initialization failed:'', Some e)],
      settled = map (\<lambda>c'. (c', Inr new_Dictionary)) cs1 @ [(c, Inl e)]
                @ map (\<lambda>c'. (c', Inr new_Dictionary)) cs2\<rparr>
   \<and> run (Call c # map Call cs1 @ [Data_arrives (Fetch_response False body)] @ map Call cs2) start =
     \<lparr>Dictionary_instance = Some new_Dictionary, suspended = None, fetches = 1,
      printed = [(''Initialization failed:'',
                  Some (Error ''Failed to fetch dictionary data from /cedict_ts.u8''))],
      settled = map (\<lambda>c'. (c', Inr new_Dictionary)) cs1
                @ [(c, Inl (Error ''Failed to fetch dictionary data from /cedict_ts.u8''))]
                @ map (\<lambda>c'. (c', Inr new_Dictionary)) cs2\<rparr>
   \<and> isInitialized new_Dictionary = False
   \<and> fst (get new_Dictionary character con) = None
   \<and> findLongestMatch new_Dictionary text pos = None"
proof -
  have a: "initialize dataUrl (Fetch_rejected e) new_Dictionary [] =
      (Inl e, new_Dictionary, [(''Initialization failed:'', Some e)])"
    by (simp add: initialize_rejected)
  have b: "initialize dataUrl (Fetch_response False body) new_Dictionary [] =
      (Inl (Error ''Failed to fetch dictionary data from /cedict_ts.u8''), new_Dictionary,
       [(''Initialization failed:'', Some (Error ''Failed to fetch dictionary data from /cedict_ts.u8''))])"
    by (simp add: initialize_not_ok dataUrl_def)
  have c: "fst (get new_Dictionary character con) = None"
    by (simp add: get_def new_Dictionary_def)
  have d: "findLongestMatch new_Dictionary text pos = None"
    by (simp add: findLongestMatch_def new_Dictionary_def)
  have e: "isInitialized new_Dictionary = False"
    by (simp add: new_Dictionary_def)
  show ?thesis
    using run_failed [OF a] run_failed [OF b] c d e by simp
qed

text \<open>
  C8. On an instance that is not initialised, \<^verbatim>\<open>get\<close> returns undefined and prints the
  message, and \<^verbatim>\<open>findLongestMatch\<close> returns null; \<^verbatim>\<open>findLongestMatch\<close> has no access to the
  console and prints nothing, so there the condition is not logged.
\<close>

theorem use_before_ready:
  "get new_Dictionary character con =
     (None, con @ [(''Attempted to access dictionary before it was initialized.'', None)])
   \<and> findLongestMatch new_Dictionary text pos = None"
  by (simp add: get_def findLongestMatch_def new_Dictionary_def)

text \<open>
  C9. A second call of \<^verbatim>\<open>getInstance\<close> made while the first waits for the data returns
  at once: its promise is settled with the instance while the first call is still
  suspended, and the instance is not initialised then (\<^verbatim>\<open>findLongestMatch\<close> on it returns
  null). Only the first caller, when the data has arrived, receives the instance built.
\<close>

theorem second_caller_gets_unbuilt_instance:
  "settled (run [Call c1, Call c2] start) = [(c2, Inr new_Dictionary)]
   \<and> suspended (run [Call c1, Call c2] start) = Some c1
   \<and> isInitialized new_Dictionary = False
   \<and> findLongestMatch new_Dictionary text pos = None
   \<and> settled (run [Call c1, Call c2, Data_arrives (Fetch_response True (Inr rawData))] start) =
       [(c2, Inr new_Dictionary), (c1, Inr (build rawData new_Dictionary))]"
  by (simp add: run_def step_def start_def new_Dictionary_def findLongestMatch_def
      initialize_def initialize_try_def)

subsection \<open>Substrings and the scan of \<^verbatim>\<open>findLongestMatch\<close>\<close>

lemma substring_in_range:
  "a \<le> b \<Longrightarrow> b \<le> length s \<Longrightarrow> substring s a b = take (b - a) (drop a s)"
  by (simp add: substring_def Let_def min_def max_def)

lemma substring_slice:
  "i + n \<le> length s \<Longrightarrow> substring s i (i + n) = take n (drop i s)"
  by (simp add: substring_in_range)

lemma length_substring_slice:
  "i + n \<le> length s \<Longrightarrow> length (substring s i (i + n)) = n"
  by (simp add: substring_slice)

text \<open>One round of the loop, with the two tests of the source taken together.\<close>

lemma scan_lengths_Suc [simp]:
  "scan_lengths d t i (Suc n) =
     (if i + Suc n \<le> length t \<and> map_has (entries d) (substring t i (i + Suc n))
      then Some (substring t i (i + Suc n))
      else scan_lengths d t i n)"
  by (simp add: Let_def)

declare scan_lengths.simps(2) [simp del]

lemma scan_lengths_Some:
  "scan_lengths d text i n = Some m \<Longrightarrow>
   m \<noteq> [] \<and> length m \<le> n \<and> i + length m \<le> length text
   \<and> m = take (length m) (drop i text) \<and> map_has (entries d) m"
proof (induction n)
  case 0
  then show ?case by simp
next
  case (Suc n)
  show ?case
  proof (cases "i + Suc n \<le> length text
         \<and> map_has (entries d) (substring text i (i + Suc n))")
    case True
    then have m: "m = substring text i (i + Suc n)"
      using Suc.prems by simp
    have len: "length m = Suc n"
      using True m length_substring_slice [of i "Suc n" "text"] by simp
    have "m = take (Suc n) (drop i text)"
      using True m substring_slice [of i "Suc n" "text"] by simp
    then show ?thesis
      using True m len by auto
  next
    case False
    then have "scan_lengths d text i n = Some m"
      using Suc.prems by auto
    from Suc.IH [OF this] show ?thesis by auto
  qed
qed

lemma findLongestMatch_Some:
  "findLongestMatch d text i = Some m \<Longrightarrow>
   m \<noteq> [] \<and> length m \<le> maxKeyLength d \<and> i + length m \<le> length text
   \<and> m = take (length m) (drop i text) \<and> map_has (entries d) m"
  by (auto simp: findLongestMatch_def dest: scan_lengths_Some split: if_splits)

lemma contiguous_snoc:
  "contiguous i (segs @ [s]) n \<longleftrightarrow>
     contiguous i segs (startIndex s) \<and> content s \<noteq> [] \<and> n = startIndex s + length (content s)"
  by (induction segs arbitrary: i) auto

lemma take_add_slice: "take (i + n) xs = take i xs @ take n (drop i xs)"
  by (simp add: take_add)

lemma segment_loop_invariant:
  "i \<le> length t \<Longrightarrow> concat (map content segs) = take i t \<Longrightarrow>
   contiguous 0 segs i \<Longrightarrow> list_all (follows_loop d t) segs \<Longrightarrow>
   concat (map content (segment_loop d t i segs)) = t
   \<and> contiguous 0 (segment_loop d t i segs) (length t)
   \<and> list_all (follows_loop d t) (segment_loop d t i segs)"
proof (induction d t i segs rule: segment_loop.induct)
  case (1 d t i segs)
  show ?case
  proof (cases "i < length t")
    case False
    then have "i = length t" using "1.prems"(1) by simp
    then show ?thesis
      using "1.prems" by (simp add: segment_loop.simps [of d t i segs])
  next
    case inside: True
    show ?thesis
    proof (cases "findLongestMatch d t i")
      case None
      let ?s = "\<lparr>content = [t ! i], isMatch = False, startIndex = i\<rparr>"
      have step: "segment_loop d t i segs = segment_loop d t (i + 1) (segs @ [?s])"
        using inside None by (subst segment_loop.simps) simp
      have a: "i + 1 \<le> length t" using inside by simp
      have b: "concat (map content (segs @ [?s])) = take (i + 1) t"
        using "1.prems"(2) inside by (simp add: take_Suc_conv_app_nth)
      have c: "contiguous 0 (segs @ [?s]) (i + 1)"
        using "1.prems"(3) by (simp add: contiguous_snoc)
      have "follows_loop d t ?s"
        using None by (simp add: follows_loop_def)
      then have d: "list_all (follows_loop d t) (segs @ [?s])"
        using "1.prems"(4) by simp
      from "1.IH"(1) [OF inside None a b c d] show ?thesis
        by (simp only: step)
    next
      case (Some m)
      from findLongestMatch_Some [OF Some] obtain c cs where
        m: "m = c # cs" and fits: "i + length m \<le> length t"
        and slice: "m = take (length m) (drop i t)"
        by (cases m) auto
      let ?s = "\<lparr>content = c # cs, isMatch = True, startIndex = i\<rparr>"
      have found: "findLongestMatch d t i = Some (c # cs)"
        using Some m by simp
      have step: "segment_loop d t i segs =
          segment_loop d t (i + length (c # cs)) (segs @ [?s])"
        using inside found by (subst segment_loop.simps) simp
      have a: "i + length (c # cs) \<le> length t" using fits m by simp
      have eq: "c # cs = take (length (c # cs)) (drop i t)"
        using slice unfolding m .
      have "take (i + length (c # cs)) t = take i t @ take (length (c # cs)) (drop i t)"
        by (rule take_add_slice)
      also have "\<dots> = take i t @ (c # cs)"
        by (simp only: eq [symmetric])
      finally have b: "concat (map content (segs @ [?s])) = take (i + length (c # cs)) t"
        using "1.prems"(2) by simp
      have c: "contiguous 0 (segs @ [?s]) (i + length (c # cs))"
        using "1.prems"(3) by (simp add: contiguous_snoc)
      have "follows_loop d t ?s"
        using found by (simp add: follows_loop_def)
      then have d: "list_all (follows_loop d t) (segs @ [?s])"
        using "1.prems"(4) by simp
      from "1.IH"(3) [OF inside Some m a b c d] show ?thesis
        by (simp only: step)
    qed
  qed
qed

text \<open>
  C2. For every dictionary (a built index or any other) and every text, the segments that
  the loop produces are contiguous from 0 to the length of the text (none is empty, each
  starts where the one before ends), their contents concatenated are the text, and each
  is what the loop says: a matched segment holds the result of \<^verbatim>\<open>findLongestMatch\<close> at
  its start, an unmatched one the single code unit at a start where the result is null.
  The loop always ends: \<open>segment_loop\<close> is a total function.
\<close>

theorem segmentation_round_trip:
  "concat (map content (segments_of d text)) = text
   \<and> contiguous 0 (segments_of d text) (length text)
   \<and> list_all (follows_loop d text) (segments_of d text)"
  unfolding segments_of_def
  by (rule segment_loop_invariant) simp_all

subsection \<open>The parser\<close>

lemma lazy_dot_plus_sound:
  "lazy_dot_plus k acc s = Some (g, r) \<Longrightarrow>
   \<exists>pre post. s = pre @ post \<and> dot_run pre \<and> g = acc @ pre \<and> k post = Some r"
proof (induction s arbitrary: acc)
  case Nil
  then show ?case by simp
next
  case (Cons c cs)
  from Cons.prems have nl: "\<not> is_line_terminator c"
    by (auto split: if_splits)
  show ?case
  proof (cases "k cs")
    case (Some r')
    with Cons.prems nl have "g = acc @ [c]" "r' = r" by auto
    with Some nl have "c # cs = [c] @ cs \<and> dot_run [c] \<and> g = acc @ [c] \<and> k cs = Some r"
      by (simp add: dot_run_def)
    then show ?thesis by blast
  next
    case None
    with Cons.prems nl have "lazy_dot_plus k (acc @ [c]) cs = Some (g, r)" by simp
    from Cons.IH [OF this] obtain pre post where
      "cs = pre @ post" "dot_run pre" "g = (acc @ [c]) @ pre" "k post = Some r" by blast
    with nl have "c # cs = (c # pre) @ post \<and> dot_run (c # pre) \<and> g = acc @ (c # pre) \<and> k post = Some r"
      by (simp add: dot_run_def)
    then show ?thesis by blast
  qed
qed

lemma lazy_dot_plus_complete:
  "dot_run pre \<Longrightarrow> k post \<noteq> None \<Longrightarrow> lazy_dot_plus k acc (pre @ post) \<noteq> None"
proof (induction pre arbitrary: acc)
  case Nil
  then show ?case by (simp add: dot_run_def)
next
  case (Cons c pre)
  from Cons.prems(1) have nl: "\<not> is_line_terminator c" and rest: "list_all (\<lambda>c. \<not> is_line_terminator c) pre"
    by (simp_all add: dot_run_def)
  show ?case
  proof (cases "k (pre @ post)")
    case (Some r)
    with nl show ?thesis by simp
  next
    case None
    with Cons.prems(2) have "pre \<noteq> []" by auto
    with rest have "dot_run pre" by (simp add: dot_run_def)
    from Cons.IH [OF this Cons.prems(2)] have "lazy_dot_plus k (acc @ [c]) (pre @ post) \<noteq> None" .
    with nl None show ?thesis by simp
  qed
qed

lemma match_end_Some: "match_end s = Some r \<longleftrightarrow> s = [SLASH]"
  by (simp add: match_end_def)

lemma match_after_pinyin_Some:
  "match_after_pinyin s = Some (g4, r) \<Longrightarrow>
   \<exists>w3. is_space w3 \<and> dot_run g4 \<and> s = [RBRACKET, w3, SLASH] @ g4 @ [SLASH]"
proof -
  assume a: "match_after_pinyin s = Some (g4, r)"
  then obtain c1 c2 c3 rest where s: "s = c1 # c2 # c3 # rest"
    by (auto simp: match_after_pinyin_def split: list.splits)
  with a have c: "c1 = RBRACKET" "is_space c2" "c3 = SLASH"
    and l: "lazy_dot_plus match_end [] rest = Some (g4, r)"
    by (auto simp: match_after_pinyin_def split: if_splits)
  from lazy_dot_plus_sound [OF l] obtain pre post where
    "rest = pre @ post" "dot_run pre" "g4 = pre" "match_end post = Some r" by auto
  with s c show ?thesis by (auto simp: match_end_Some)
qed

lemma match_after_simplified_Some:
  "match_after_simplified s = Some (g3, g4, r) \<Longrightarrow>
   \<exists>w2 w3. is_space w2 \<and> is_space w3 \<and> dot_run g3 \<and> dot_run g4
     \<and> s = [w2, LBRACKET] @ g3 @ [RBRACKET, w3, SLASH] @ g4 @ [SLASH]"
proof -
  assume a: "match_after_simplified s = Some (g3, g4, r)"
  then obtain c1 c2 rest where s: "s = c1 # c2 # rest"
    by (auto simp: match_after_simplified_def split: list.splits)
  with a have c: "is_space c1" "c2 = LBRACKET"
    and l: "lazy_dot_plus match_after_pinyin [] rest = Some (g3, g4, r)"
    by (auto simp: match_after_simplified_def split: if_splits)
  from lazy_dot_plus_sound [OF l] obtain pre post where
    p: "rest = pre @ post" "dot_run pre" "g3 = pre" "match_after_pinyin post = Some (g4, r)" by auto
  from match_after_pinyin_Some [OF p(4)] obtain w3 where
    "is_space w3" "dot_run g4" "post = [RBRACKET, w3, SLASH] @ g4 @ [SLASH]" by blast
  with s c p show ?thesis by auto
qed

lemma match_after_traditional_Some:
  "match_after_traditional s = Some (g2, g3, g4, r) \<Longrightarrow>
   \<exists>w1 w2 w3. is_space w1 \<and> is_space w2 \<and> is_space w3 \<and> dot_run g2 \<and> dot_run g3 \<and> dot_run g4
     \<and> s = [w1] @ g2 @ [w2, LBRACKET] @ g3 @ [RBRACKET, w3, SLASH] @ g4 @ [SLASH]"
proof -
  assume a: "match_after_traditional s = Some (g2, g3, g4, r)"
  then obtain c1 rest where s: "s = c1 # rest"
    by (auto simp: match_after_traditional_def split: list.splits)
  with a have c: "is_space c1"
    and l: "lazy_dot_plus match_after_simplified [] rest = Some (g2, g3, g4, r)"
    by (auto simp: match_after_traditional_def split: if_splits)
  from lazy_dot_plus_sound [OF l] obtain pre post where
    p: "rest = pre @ post" "dot_run pre" "g2 = pre" "match_after_simplified post = Some (g3, g4, r)" by auto
  from match_after_simplified_Some [OF p(4)] obtain w2 w3 where
    "is_space w2" "is_space w3" "dot_run g3" "dot_run g4"
    "post = [w2, LBRACKET] @ g3 @ [RBRACKET, w3, SLASH] @ g4 @ [SLASH]" by blast
  with s c p show ?thesis by auto
qed

lemma regex_match_Some:
  "regex_match s = Some (g1, g2, g3, g4) \<Longrightarrow>
   \<not> starts_with HASH s \<and>
   (\<exists>w1 w2 w3. is_space w1 \<and> is_space w2 \<and> is_space w3
     \<and> dot_run g1 \<and> dot_run g2 \<and> dot_run g3 \<and> dot_run g4
     \<and> s = g1 @ [w1] @ g2 @ [w2, LBRACKET] @ g3 @ [RBRACKET, w3, SLASH] @ g4 @ [SLASH])"
proof -
  assume a: "regex_match s = Some (g1, g2, g3, g4)"
  then have h: "\<not> starts_with HASH s"
    by (auto simp: regex_match_def split: if_splits)
  with a obtain r where l: "lazy_dot_plus match_after_traditional [] s = Some (g1, g2, g3, g4, r)"
    by (auto simp: regex_match_def split: option.splits)
  from lazy_dot_plus_sound [OF l] obtain pre post where
    p: "s = pre @ post" "dot_run pre" "g1 = pre" "match_after_traditional post = Some (g2, g3, g4, r)" by auto
  from match_after_traditional_Some [OF p(4)] obtain w1 w2 w3 where
    "is_space w1" "is_space w2" "is_space w3" "dot_run g2" "dot_run g3" "dot_run g4"
    "post = [w1] @ g2 @ [w2, LBRACKET] @ g3 @ [RBRACKET, w3, SLASH] @ g4 @ [SLASH]" by blast
  with p h show ?thesis by auto
qed

lemma regex_match_shape:
  "regex_match s \<noteq> None \<Longrightarrow> \<not> starts_with HASH s \<and> pattern_shape s"
proof -
  assume "regex_match s \<noteq> None"
  then obtain g1 g2 g3 g4 where "regex_match s = Some (g1, g2, g3, g4)" by auto
  from regex_match_Some [OF this] show ?thesis
    unfolding pattern_shape_def by blast
qed

lemma shape_regex_match:
  assumes "pattern_shape s" and "\<not> starts_with HASH s"
  shows "regex_match s \<noteq> None"
proof -
  from assms(1) obtain t sm p g w1 w2 w3 where
    r: "dot_run t" "dot_run sm" "dot_run p" "dot_run g"
    and w: "is_space w1" "is_space w2" "is_space w3"
    and s: "s = t @ [w1] @ sm @ [w2, LBRACKET] @ p @ [RBRACKET, w3, SLASH] @ g @ [SLASH]"
    unfolding pattern_shape_def by blast
  have "match_end [SLASH] \<noteq> None" by (simp add: match_end_def)
  from lazy_dot_plus_complete [where k = match_end and post = "[SLASH]" and acc = "[]", OF r(4) this]
  have "match_after_pinyin ([RBRACKET, w3, SLASH] @ g @ [SLASH]) \<noteq> None"
    using w by (simp add: match_after_pinyin_def)
  from lazy_dot_plus_complete [where k = match_after_pinyin and acc = "[]", OF r(3) this]
  have "match_after_simplified ([w2, LBRACKET] @ p @ [RBRACKET, w3, SLASH] @ g @ [SLASH]) \<noteq> None"
    using w by (simp add: match_after_simplified_def)
  from lazy_dot_plus_complete [where k = match_after_simplified and acc = "[]", OF r(2) this]
  have "match_after_traditional ([w1] @ sm @ [w2, LBRACKET] @ p @ [RBRACKET, w3, SLASH] @ g @ [SLASH]) \<noteq> None"
    using w by (simp add: match_after_traditional_def)
  from lazy_dot_plus_complete [where k = match_after_traditional and acc = "[]", OF r(1) this]
  have "lazy_dot_plus match_after_traditional [] s \<noteq> None"
    using s by simp
  then show ?thesis
    using assms(2) by (auto simp: regex_match_def split: option.splits)
qed

lemma parseLine_None_iff: "parseLine line = None \<longleftrightarrow> regex_match (trim line) = None"
  by (auto simp: parseLine_def split: option.splits)

text \<open>What \<^verbatim>\<open>trim\<close> does: it takes white space away at both ends, and all of it.\<close>

lemma strip_end: "xs = rev (dropWhile P (rev xs)) @ rev (takeWhile P (rev xs))"
proof -
  have "rev (rev (dropWhile P (rev xs)) @ rev (takeWhile P (rev xs))) = rev xs"
    by simp
  then have "rev (dropWhile P (rev xs)) @ rev (takeWhile P (rev xs)) = xs"
    by (simp only: rev_is_rev_conv)
  then show ?thesis by (rule sym)
qed

lemma trim_tail:
  "dropWhile is_space line =
     trim line @ rev (takeWhile is_space (rev (dropWhile is_space line)))"
  unfolding trim_def by (rule strip_end)

lemma trim_decomposition:
  "\<exists>pre post. line = pre @ trim line @ post \<and> list_all is_space pre \<and> list_all is_space post"
proof -
  let ?post = "rev (takeWhile is_space (rev (dropWhile is_space line)))"
  have "line = takeWhile is_space line @ dropWhile is_space line"
    by simp
  then have "line = takeWhile is_space line @ trim line @ ?post"
    using trim_tail [of line] by simp
  moreover have "list_all is_space (takeWhile is_space line)"
    by (auto simp: list_all_iff dest: set_takeWhileD)
  moreover have "list_all is_space ?post"
    by (auto simp: list_all_iff dest: set_takeWhileD)
  ultimately show ?thesis by blast
qed

lemma trim_ends:
  assumes "trim line \<noteq> []"
  shows "\<not> is_space (hd (trim line)) \<and> \<not> is_space (last (trim line))"
proof -
  let ?a = "dropWhile is_space line"
  let ?b = "dropWhile is_space (rev ?a)"
  have t: "trim line = rev ?b" by (simp add: trim_def)
  with assms have b: "?b \<noteq> []" by simp
  then have "\<not> is_space (hd ?b)" by (rule hd_dropWhile)
  with b t have l: "\<not> is_space (last (trim line))"
    by (simp add: last_rev)
  have "hd ?a = hd (trim line @ rev (takeWhile is_space (rev ?a)))"
    using trim_tail [of line] by (rule arg_cong)
  with assms have h: "hd ?a = hd (trim line)" by simp
  have "?a \<noteq> []"
  proof
    assume "?a = []"
    with trim_tail [of line] have "trim line = []" by simp
    with assms show False by simp
  qed
  then have "\<not> is_space (hd ?a)" by (rule hd_dropWhile)
  with h l show ?thesis by simp
qed

text \<open>A line of the entry shape of the specification also has the wider shape.\<close>

lemma headword_dot_run: "headword s \<Longrightarrow> dot_run s"
  by (auto simp: headword_def dot_run_def is_space_def list_all_iff)

lemma entry_shape_pattern_shape: "entry_shape s \<Longrightarrow> pattern_shape s"
  unfolding entry_shape_def pattern_shape_def by (blast intro: headword_dot_run)

text \<open>
  In a line of the entry shape, the white space after the first headword is the first
  white space of the line, the white space after the second headword is the next one, and
  the opening bracket follows it.
\<close>

lemma dropWhile_headword:
  "headword t \<Longrightarrow> is_space w \<Longrightarrow> dropWhile (\<lambda>c. \<not> is_space c) (t @ w # r) = w # r"
  by (simp add: headword_def list_all_iff)

lemma entry_shape_bracket:
  assumes "entry_shape s"
  shows "\<exists>w r. dropWhile (\<lambda>c. \<not> is_space c) (tl (dropWhile (\<lambda>c. \<not> is_space c) s))
           = w # LBRACKET # r"
proof -
  from assms obtain t sm p g w1 w2 w3 where
    h: "headword t" "headword sm" and w: "is_space w1" "is_space w2"
    and s: "s = t @ [w1] @ sm @ [w2, LBRACKET] @ p @ [RBRACKET, w3, SLASH] @ g @ [SLASH]"
    unfolding entry_shape_def by blast
  let ?r2 = "LBRACKET # p @ [RBRACKET, w3, SLASH] @ g @ [SLASH]"
  have "s = t @ w1 # (sm @ w2 # ?r2)"
    using s by simp
  then have "dropWhile (\<lambda>c. \<not> is_space c) s = w1 # (sm @ w2 # ?r2)"
    using dropWhile_headword [OF h(1) w(1)] by simp
  then have "dropWhile (\<lambda>c. \<not> is_space c) (tl (dropWhile (\<lambda>c. \<not> is_space c) s)) = w2 # ?r2"
    using dropWhile_headword [OF h(2) w(2)] by simp
  then show ?thesis by blast
qed

text \<open>
  C4, as amended. \<^verbatim>\<open>parseLine\<close> trims the line: the trimmed line is the line without the
  white space at its two ends. When the trimmed line begins with \<^verbatim>\<open>#\<close>, or does not have
  the wider shape (four non-empty fields without line terminators, which may hold white
  space), the result is null. Nothing is thrown: the result is always a value.
\<close>

theorem parse_rejection:
  "(starts_with HASH (trim line) \<or> \<not> pattern_shape (trim line) \<longrightarrow> parseLine line = None)
   \<and> (\<exists>pre post. line = pre @ trim line @ post
         \<and> list_all is_space pre \<and> list_all is_space post)
   \<and> (trim line \<noteq> [] \<longrightarrow> \<not> is_space (hd (trim line)) \<and> \<not> is_space (last (trim line)))"
proof (intro conjI impI)
  assume h: "starts_with HASH (trim line) \<or> \<not> pattern_shape (trim line)"
  show "parseLine line = None"
  proof (rule ccontr)
    assume "parseLine line \<noteq> None"
    then have "regex_match (trim line) \<noteq> None"
      by (simp add: parseLine_None_iff)
    from regex_match_shape [OF this] h show False
      by blast
  qed
next
  show "\<exists>pre post. line = pre @ trim line @ post
         \<and> list_all is_space pre \<and> list_all is_space post"
    by (rule trim_decomposition)
next
  assume "trim line \<noteq> []"
  then show "\<not> is_space (hd (trim line))" "\<not> is_space (last (trim line))"
    using trim_ends [of line] by simp_all
qed

theorem parse_rejection_witness:
  "trim ([0x20, 0x09] @ ascii ''#!comment'' @ [0x0D]) = ascii ''#!comment''
   \<and> starts_with HASH (trim ([0x20, 0x09] @ ascii ''#!comment'' @ [0x0D]))
   \<and> parseLine ([0x20, 0x09] @ ascii ''#!comment'' @ [0x0D]) = None
   \<and> parseLine (ascii ''#!comment'') = None
   \<and> \<not> pattern_shape (trim (ascii '' no entry here ''))
   \<and> parseLine (ascii '' no entry here '') = None
   \<and> \<not> is_space (hd (trim (ascii '' no entry here '')))
   \<and> \<not> is_space (last (trim (ascii '' no entry here '')))"
proof -
  have t: "trim ([0x20, 0x09] @ ascii ''#!comment'' @ [0x0D]) = ascii ''#!comment''"
    by code_simp
  have h1: "starts_with HASH (trim ([0x20, 0x09] @ ascii ''#!comment'' @ [0x0D]))"
    by code_simp
  have h2: "starts_with HASH (trim (ascii ''#!comment''))"
    by code_simp
  have n: "\<not> pattern_shape (trim (ascii '' no entry here ''))"
  proof
    assume shape: "pattern_shape (trim (ascii '' no entry here ''))"
    have "\<not> starts_with HASH (trim (ascii '' no entry here ''))"
      by code_simp
    from shape_regex_match [OF shape this]
    have "regex_match (trim (ascii '' no entry here '')) \<noteq> None" .
    moreover have "regex_match (trim (ascii '' no entry here '')) = None"
      by code_simp
    ultimately show False by simp
  qed
  have ne: "trim (ascii '' no entry here '') \<noteq> []"
    by code_simp
  from t h1 h2 n ne
    parse_rejection [of "[0x20, 0x09] @ ascii ''#!comment'' @ [0x0D]"]
    parse_rejection [of "ascii ''#!comment''"]
    parse_rejection [of "ascii '' no entry here ''"]
  show ?thesis by blast
qed

text \<open>
  The claim as stated, with the entry shape of the specification, fails: the line
  \<^verbatim>\<open>a b c [p] /d/\<close> has three runs before the bracket, so it does not have the entry
  shape, and it does not begin with \<^verbatim>\<open>#\<close>; \<^verbatim>\<open>parseLine\<close> returns an entry, whose simplified
  headword is \<^verbatim>\<open>b c\<close>.
\<close>

theorem parse_rejection_counterexample:
  "\<not> starts_with HASH (trim (ascii ''a b c [p] /d/''))
   \<and> \<not> entry_shape (trim (ascii ''a b c [p] /d/''))
   \<and> parseLine (ascii ''a b c [p] /d/'') =
       Some \<lparr>traditional = ascii ''a'', simplified = ascii ''b c'', pinyin = ascii ''p'',
             definitions = [ascii ''d'']\<rparr>"
proof -
  have h: "\<not> starts_with HASH (trim (ascii ''a b c [p] /d/''))"
    by code_simp
  have d: "dropWhile (\<lambda>c. \<not> is_space c)
             (tl (dropWhile (\<lambda>c. \<not> is_space c) (trim (ascii ''a b c [p] /d/''))))
           = ascii '' c [p] /d/''"
    by code_simp
  have c: "ascii '' c [p] /d/'' = 0x20 # 0x63 # ascii '' [p] /d/''"
    by code_simp
  have "\<not> entry_shape (trim (ascii ''a b c [p] /d/''))"
  proof
    assume "entry_shape (trim (ascii ''a b c [p] /d/''))"
    from entry_shape_bracket [OF this] d c obtain w r where
      "0x20 # 0x63 # ascii '' [p] /d/'' = w # LBRACKET # r"
      by auto
    then have "(0x63 :: code_unit) = LBRACKET" by simp
    then show False by (simp add: LBRACKET_def)
  qed
  moreover have "parseLine (ascii ''a b c [p] /d/'') =
       Some \<lparr>traditional = ascii ''a'', simplified = ascii ''b c'', pinyin = ascii ''p'',
             definitions = [ascii ''d'']\<rparr>"
    by code_simp
  ultimately show ?thesis using h by simp
qed

text \<open>The converse: every other line is parsed to an entry.\<close>

lemma parse_acceptance:
  "pattern_shape (trim line) \<Longrightarrow> \<not> starts_with HASH (trim line) \<Longrightarrow> parseLine line \<noteq> None"
  using shape_regex_match [of "trim line"] by (simp add: parseLine_None_iff)

lemma split_not_Nil: "split sep s \<noteq> []"
  by (induction s) (auto split: list.splits)

lemma parseLine_headwords:
  assumes "parseLine line = Some e"
  shows "traditional e \<noteq> [] \<and> simplified e \<noteq> []"
proof -
  from assms obtain g1 g2 g3 g where
    m: "regex_match (trim line) = Some (g1, g2, g3, g)"
    and e: "traditional e = g1" "simplified e = g2"
    by (auto simp: parseLine_def split: option.splits)
  from regex_match_Some [OF m] have "dot_run g1" "dot_run g2"
    by blast+
  with e show ?thesis
    by (simp add: dot_run_def)
qed

text \<open>
  What \<^verbatim>\<open>split\<close> does: the pieces hold no separator, and written with the separator
  between them they give the string back. No other list of pieces does both.
\<close>

lemma join_Cons_Cons: "join sep ((c # p) # ps) = c # join sep (p # ps)"
  by (cases ps) simp_all

lemma join_Nil_Cons: "ps \<noteq> [] \<Longrightarrow> join sep ([] # ps) = sep # join sep ps"
  by (cases ps) simp_all

lemma join_split: "join sep (split sep s) = s"
proof (induction s)
  case Nil
  then show ?case by simp
next
  case (Cons c cs)
  obtain piece pieces where sp: "split sep cs = piece # pieces"
    using split_not_Nil [of sep cs] by (cases "split sep cs") auto
  show ?case
  proof (cases "c = sep")
    case True
    then show ?thesis
      using Cons.IH split_not_Nil [of sep cs] by (simp add: join_Nil_Cons)
  next
    case False
    then show ?thesis
      using Cons.IH sp by (simp add: join_Cons_Cons)
  qed
qed

lemma split_no_separator: "p \<in> set (split sep s) \<Longrightarrow> sep \<notin> set p"
proof (induction s arbitrary: p)
  case Nil
  then show ?case by simp
next
  case (Cons c cs)
  obtain piece pieces where sp: "split sep cs = piece # pieces"
    using split_not_Nil [of sep cs] by (cases "split sep cs") auto
  show ?case
  proof (cases "c = sep")
    case True
    with Cons.prems have "p = [] \<or> p \<in> set (split sep cs)" by simp
    then show ?thesis using Cons.IH by auto
  next
    case False
    with Cons.prems sp have "p = c # piece \<or> p \<in> set pieces" by simp
    moreover have "sep \<notin> set piece" using Cons.IH [of piece] sp by simp
    moreover have "q \<in> set pieces \<Longrightarrow> sep \<notin> set q" for q using Cons.IH [of q] sp by simp
    ultimately show ?thesis using False by auto
  qed
qed

lemma join_unique:
  assumes "join sep ps = join sep qs" and "ps \<noteq> []" and "qs \<noteq> []"
    and "\<forall>p \<in> set ps. sep \<notin> set p" and "\<forall>q \<in> set qs. sep \<notin> set q"
  shows "ps = qs"
  using assms
proof (induction ps arbitrary: qs)
  case Nil
  then show ?case by simp
next
  case (Cons p ps)
  then obtain q qs' where qs: "qs = q # qs'" by (cases qs) auto
  have np: "sep \<notin> set p" and nq: "sep \<notin> set q"
    using Cons.prems qs by simp_all
  have jp: "join sep (p # ps) = (if ps = [] then p else p @ sep # join sep ps)"
    by (cases ps) simp_all
  have jq: "join sep (q # qs') = (if qs' = [] then q else q @ sep # join sep qs')"
    by (cases qs') simp_all
  have eq: "(if ps = [] then p else p @ sep # join sep ps) =
            (if qs' = [] then q else q @ sep # join sep qs')"
    using Cons.prems(1) qs jp jq by simp
  have split_eq: "p = q \<and> r = r'" if "p @ sep # r = q @ sep # r'" for r r'
  proof -
    have "takeWhile (\<lambda>c. c \<noteq> sep) (p @ sep # r) = p"
      using np by (auto simp: takeWhile_tail takeWhile_eq_all_conv)
    moreover have "takeWhile (\<lambda>c. c \<noteq> sep) (q @ sep # r') = q"
      using nq by (auto simp: takeWhile_tail takeWhile_eq_all_conv)
    ultimately have "p = q" using that by simp
    with that show ?thesis by simp
  qed
  show ?case
  proof (cases "ps = []")
    case True
    show ?thesis
    proof (cases "qs' = []")
      case True
      with \<open>ps = []\<close> eq qs show ?thesis by simp
    next
      case False
      with True eq have "p = q @ sep # join sep qs'" by simp
      with np show ?thesis by simp
    qed
  next
    case False
    show ?thesis
    proof (cases "qs' = []")
      case True
      with False eq have "q = p @ sep # join sep ps" by simp
      with nq show ?thesis by simp
    next
      case qne: False
      with False eq have "p @ sep # join sep ps = q @ sep # join sep qs'" by simp
      from split_eq [OF this] have pq: "p = q" and j: "join sep ps = join sep qs'" by simp_all
      have "ps = qs'"
        using Cons.IH [OF j False qne] Cons.prems(4,5) qs by simp
      with pq qs show ?thesis by simp
    qed
  qed
qed

text \<open>
  C5. When \<^verbatim>\<open>parseLine\<close> returns an entry, the trimmed line is made of the four captured
  groups in the shape of the pattern, the two headwords are the first two groups and are
  not empty, and the definitions are the pieces of the fourth group (the gloss segment)
  that are not empty, in their order, where the pieces are the one list of strings
  without a slash that gives the gloss segment when written with slashes between: no
  definition is empty or holds a slash, and there is a definition as soon as a piece is
  not empty.
\<close>

theorem parse_success:
  assumes "parseLine line = Some e"
  shows "\<exists>g1 g2 g3 g w1 w2 w3 pieces.
     regex_match (trim line) = Some (g1, g2, g3, g)
     \<and> trim line = g1 @ [w1] @ g2 @ [w2, LBRACKET] @ g3 @ [RBRACKET, w3, SLASH] @ g @ [SLASH]
     \<and> traditional e = g1 \<and> traditional e \<noteq> []
     \<and> simplified e = g2 \<and> simplified e \<noteq> []
     \<and> pinyin e = g3
     \<and> pieces = split SLASH g
     \<and> join SLASH pieces = g \<and> pieces \<noteq> [] \<and> (\<forall>p \<in> set pieces. SLASH \<notin> set p)
     \<and> (\<forall>qs. join SLASH qs = g \<and> qs \<noteq> [] \<and> (\<forall>q \<in> set qs. SLASH \<notin> set q) \<longrightarrow> qs = pieces)
     \<and> definitions e = filter (\<lambda>gloss. gloss \<noteq> []) pieces
     \<and> [] \<notin> set (definitions e)
     \<and> (\<forall>gloss \<in> set (definitions e). SLASH \<notin> set gloss)
     \<and> ((\<exists>gloss \<in> set pieces. gloss \<noteq> []) \<longrightarrow> definitions e \<noteq> [])"
proof -
  from assms obtain g1 g2 g3 g where
    m: "regex_match (trim line) = Some (g1, g2, g3, g)"
    and e: "e = \<lparr>traditional = g1, simplified = g2, pinyin = g3,
                definitions = filter (\<lambda>def. length def > 0) (split SLASH g)\<rparr>"
    by (auto simp: parseLine_def split: option.splits)
  from regex_match_Some [OF m] obtain w1 w2 w3 where
    r: "dot_run g1" "dot_run g2"
    and s: "trim line = g1 @ [w1] @ g2 @ [w2, LBRACKET] @ g3 @ [RBRACKET, w3, SLASH] @ g @ [SLASH]"
    by blast
  let ?pieces = "split SLASH g"
  have j: "join SLASH ?pieces = g" by (rule join_split)
  have ne: "?pieces \<noteq> []" by (rule split_not_Nil)
  have ns: "\<forall>p \<in> set ?pieces. SLASH \<notin> set p"
    by (blast dest: split_no_separator)
  have u: "\<forall>qs. join SLASH qs = g \<and> qs \<noteq> [] \<and> (\<forall>q \<in> set qs. SLASH \<notin> set q) \<longrightarrow> qs = ?pieces"
  proof (intro allI impI)
    fix qs
    assume q: "join SLASH qs = g \<and> qs \<noteq> [] \<and> (\<forall>q \<in> set qs. SLASH \<notin> set q)"
    then have "join SLASH qs = join SLASH ?pieces" using j by simp
    from join_unique [OF this] q ne ns show "qs = ?pieces" by blast
  qed
  have d: "definitions e = filter (\<lambda>gloss. gloss \<noteq> []) ?pieces"
    using e by simp
  have n: "(\<exists>gloss \<in> set ?pieces. gloss \<noteq> []) \<longrightarrow> definitions e \<noteq> []"
    unfolding d by (auto simp: filter_empty_conv)
  have z: "[] \<notin> set (definitions e)"
    unfolding d by simp
  have y: "\<forall>gloss \<in> set (definitions e). SLASH \<notin> set gloss"
    unfolding d using ns by simp
  have t: "traditional e = g1" "simplified e = g2" "pinyin e = g3"
    using e by simp_all
  have h: "traditional e \<noteq> []" "simplified e \<noteq> []"
    using r t by (simp_all add: dot_run_def)
  from m s t h j ne ns u d z y n show ?thesis
    by blast
qed

theorem parse_success_witness:
  "parseLine (ascii '' A B [p q] /x//y z/ '') =
     Some \<lparr>traditional = ascii ''A'', simplified = ascii ''B'', pinyin = ascii ''p q'',
           definitions = [ascii ''x'', ascii ''y z'']\<rparr>
   \<and> regex_match (trim (ascii '' A B [p q] /x//y z/ '')) =
       Some (ascii ''A'', ascii ''B'', ascii ''p q'', ascii ''x//y z'')
   \<and> split SLASH (ascii ''x//y z'') = [ascii ''x'', [], ascii ''y z'']
   \<and> join SLASH [ascii ''x'', [], ascii ''y z''] = ascii ''x//y z''
   \<and> parseLine example_line = Some example_entry
   \<and> traditional example_entry \<noteq> [] \<and> simplified example_entry \<noteq> []
   \<and> [] \<notin> set (definitions example_entry) \<and> definitions example_entry \<noteq> []"
proof -
  let ?line = "ascii '' A B [p q] /x//y z/ ''"
  let ?e = "\<lparr>traditional = ascii ''A'', simplified = ascii ''B'', pinyin = ascii ''p q'',
           definitions = [ascii ''x'', ascii ''y z'']\<rparr>"
  have p: "parseLine ?line = Some ?e"
    by code_simp
  have m: "regex_match (trim ?line) = Some (ascii ''A'', ascii ''B'', ascii ''p q'', ascii ''x//y z'')"
    by code_simp
  have j: "join SLASH [ascii ''x'', [], ascii ''y z''] = ascii ''x//y z''"
    by code_simp
  have ns: "\<forall>q \<in> set [ascii ''x'', [], ascii ''y z'']. SLASH \<notin> set q"
    by code_simp
  from parse_success [OF p] obtain g pieces where
    g: "regex_match (trim ?line) = Some (traditional ?e, simplified ?e, pinyin ?e, g)"
    and pc: "pieces = split SLASH g"
    and u: "\<forall>qs. join SLASH qs = g \<and> qs \<noteq> [] \<and> (\<forall>q \<in> set qs. SLASH \<notin> set q) \<longrightarrow> qs = pieces"
    by blast
  from g m have "g = ascii ''x//y z''" by simp
  with u j ns have "[ascii ''x'', [], ascii ''y z''] = pieces" by blast
  with pc \<open>g = ascii ''x//y z''\<close>
  have sp: "split SLASH (ascii ''x//y z'') = [ascii ''x'', [], ascii ''y z'']" by simp
  have p2: "parseLine example_line = Some example_entry"
    by code_simp
  have m2: "regex_match (trim example_line) =
      Some ([0x50A2, 0x4FF1], [0x5BB6, 0x5177], ascii ''jia1 ju4'', ascii ''furniture'')"
    by code_simp
  have a: "ascii ''furniture'' \<in> set (split SLASH (ascii ''furniture'')) \<and> ascii ''furniture'' \<noteq> []"
    by code_simp
  from parse_success [OF p2] obtain g' pieces' where
    "regex_match (trim example_line) =
       Some (traditional example_entry, simplified example_entry, pinyin example_entry, g')"
    and pc': "pieces' = split SLASH g'"
    and ne: "traditional example_entry \<noteq> []" "simplified example_entry \<noteq> []"
      "[] \<notin> set (definitions example_entry)"
    and imp: "(\<exists>gloss \<in> set pieces'. gloss \<noteq> []) \<longrightarrow> definitions example_entry \<noteq> []"
    by blast
  with m2 have "g' = ascii ''furniture''" by simp
  with imp pc' a have "definitions example_entry \<noteq> []" by blast
  with p m sp j p2 ne show ?thesis by simp
qed

subsection \<open>The \<^verbatim>\<open>Map\<close>\<close>

lemma map_of_map_set: "map_of (map_set k v m) = (map_of m)(k \<mapsto> v)"
  by (induction m) (auto simp: fun_eq_iff)

lemma keys_map_set: "fst ` set (map_set k v m) = insert k (fst ` set m)"
proof (induction m)
  case Nil
  then show ?case by simp
next
  case (Cons a m)
  obtain k' v' where a: "a = (k', v')" by (cases a)
  show ?case
    using Cons.IH by (cases "k' = k") (simp_all add: a insert_commute)
qed

lemma distinct_map_set: "distinct (map fst m) \<Longrightarrow> distinct (map fst (map_set k v m))"
proof (induction m)
  case Nil
  then show ?case by simp
next
  case (Cons a m)
  obtain k' v' where a: "a = (k', v')" by (cases a)
  show ?case
    using Cons by (cases "k' = k") (simp_all add: a keys_map_set)
qed

lemma map_has_iff: "map_has m k \<longleftrightarrow> k \<in> set (map_keys m)"
  by (simp add: map_has_def map_keys_def map_of_eq_None_iff)

subsection \<open>The construction as a sequence of insertions\<close>

lemma insert_line_insertions: "insert_line line m = apply_insertions (line_insertions line) m"
  by (simp add: insert_line_def line_insertions_def apply_insertions_def split: option.splits)

lemma apply_insertions_append:
  "apply_insertions (xs @ ys) m = apply_insertions ys (apply_insertions xs m)"
  by (simp add: apply_insertions_def)

lemma fold_insert_line:
  "fold insert_line lines m = apply_insertions (concat (map line_insertions lines)) m"
  by (induction lines arbitrary: m)
     (simp_all add: apply_insertions_append insert_line_insertions, simp add: apply_insertions_def)

lemma map_of_apply_insertions:
  "map_of (apply_insertions ins m) k =
     (case last_write ins k of Some v \<Rightarrow> Some v | None \<Rightarrow> map_of m k)"
proof (induction ins arbitrary: m)
  case Nil
  then show ?case by (simp add: apply_insertions_def)
next
  case (Cons a ins)
  obtain k' v where a: "a = (k', v)" by (cases a)
  have "apply_insertions (a # ins) m = apply_insertions ins (map_set k' v m)"
    by (simp add: apply_insertions_def a)
  then show ?case
    by (simp add: Cons.IH a map_of_map_set split: option.splits)
qed

lemma keys_apply_insertions:
  "fst ` set (apply_insertions ins m) = fst ` set ins \<union> fst ` set m"
proof (induction ins arbitrary: m)
  case Nil
  then show ?case by (simp add: apply_insertions_def)
next
  case (Cons a ins)
  obtain k' v where a: "a = (k', v)" by (cases a)
  have "apply_insertions (a # ins) m = apply_insertions ins (map_set k' v m)"
    by (simp add: apply_insertions_def a)
  then show ?case
    using Cons.IH [of "map_set k' v m"] by (auto simp: a keys_map_set)
qed

lemma distinct_apply_insertions:
  "distinct (map fst m) \<Longrightarrow> distinct (map fst (apply_insertions ins m))"
proof (induction ins arbitrary: m)
  case Nil
  then show ?case by (simp add: apply_insertions_def)
next
  case (Cons a ins)
  obtain k' v where a: "a = (k', v)" by (cases a)
  have "apply_insertions (a # ins) m = apply_insertions ins (map_set k' v m)"
    by (simp add: apply_insertions_def a)
  then show ?case
    using Cons.IH [of "map_set k' v m"] Cons.prems by (simp add: distinct_map_set)
qed

lemma entries_build:
  "entries (build rawData d) = apply_insertions (insertions rawData) (entries d)"
  by (simp add: build_def Let_def fold_insert_line insertions_def)

lemma isInitialized_build: "isInitialized (build rawData d)"
  by (simp add: build_def Let_def)

lemma maxKeyLength_build:
  "maxKeyLength (build rawData d) = longest_key (map_keys (entries (build rawData d)))"
  by (simp add: build_def Let_def)

lemma keys_build:
  "set (map_keys (entries (build rawData new_Dictionary))) = fst ` set (insertions rawData)"
  by (simp add: map_keys_def entries_build keys_apply_insertions new_Dictionary_def)

text \<open>No key of a built index is empty.\<close>

lemma line_insertions_keys: "(k, e) \<in> set (line_insertions line) \<Longrightarrow> k \<noteq> []"
proof -
  assume a: "(k, e) \<in> set (line_insertions line)"
  then have "\<exists>e'. parseLine line = Some e' \<and> (k = traditional e' \<or> k = simplified e')"
    by (cases "parseLine line") (auto simp: line_insertions_def)
  then obtain e' where p: "parseLine line = Some e'" and k: "k = traditional e' \<or> k = simplified e'"
    by blast
  from parseLine_headwords [OF p] k show ?thesis by auto
qed

lemma insertions_keys: "(k, e) \<in> set (insertions rawData) \<Longrightarrow> k \<noteq> []"
  by (auto simp: insertions_def dest: line_insertions_keys)

lemma built_keys_not_empty: "k \<in> set (map_keys (entries (build rawData new_Dictionary))) \<Longrightarrow> k \<noteq> []"
  by (auto simp: keys_build dest: insertions_keys)

text \<open>
  C3. In the index built from any raw text, every line that parses to an entry has that
  entry's traditional and simplified headwords among the keys; the value found under a
  key is that of the last insertion made under it, in source order (traditional before
  simplified within a line), so a later insertion replaces an earlier one under the same
  key; no key occurs twice; and the construction returns normally.
\<close>

theorem dual_key_last_write_wins:
  fixes rawData :: jsstring
  defines "d \<equiv> build rawData new_Dictionary"
  shows "(\<forall>line \<in> set (split NEWLINE rawData). \<forall>e. parseLine line = Some e \<longrightarrow>
            map_has (entries d) (traditional e) \<and> map_has (entries d) (simplified e))
       \<and> map_get (entries d) k = last_write (insertions rawData) k
       \<and> distinct (map_keys (entries d))
       \<and> fst (initialize url (Fetch_response True (Inr rawData)) new_Dictionary con) = Inr ()"
proof (intro conjI ballI allI impI)
  fix line e
  assume line: "line \<in> set (split NEWLINE rawData)" and e: "parseLine line = Some e"
  then have "(traditional e, e) \<in> set (insertions rawData)" "(simplified e, e) \<in> set (insertions rawData)"
    by (auto simp: insertions_def line_insertions_def intro!: bexI [of _ line])
  then have "traditional e \<in> fst ` set (insertions rawData)" "simplified e \<in> fst ` set (insertions rawData)"
    by (auto intro: rev_image_eqI)
  then show "map_has (entries d) (traditional e)" "map_has (entries d) (simplified e)"
    by (simp_all add: map_has_iff d_def keys_build)
next
  show "map_get (entries d) k = last_write (insertions rawData) k"
    by (simp add: map_get_def d_def entries_build map_of_apply_insertions new_Dictionary_def
        split: option.splits)
next
  show "distinct (map_keys (entries d))"
    by (simp add: map_keys_def d_def entries_build distinct_apply_insertions new_Dictionary_def)
next
  show "fst (initialize url (Fetch_response True (Inr rawData)) new_Dictionary con) = Inr ()"
    by (simp add: initialize_def initialize_try_def)
qed

theorem dual_key_last_write_wins_witness:
  "ascii ''A B [p] /first/'' \<in> set (split NEWLINE collision_raw)
   \<and> parseLine (ascii ''A B [p] /first/'') = Some first_entry
   \<and> map_has (entries (build collision_raw new_Dictionary)) (traditional first_entry)
   \<and> map_has (entries (build collision_raw new_Dictionary)) (simplified first_entry)
   \<and> simplified first_entry = traditional second_entry
   \<and> map_get (entries (build collision_raw new_Dictionary)) (ascii ''B'') = Some second_entry"
proof -
  have s: "split NEWLINE collision_raw = [ascii ''A B [p] /first/'', ascii ''B C [q] /second/'']"
    by code_simp
  have l: "ascii ''A B [p] /first/'' \<in> set (split NEWLINE collision_raw)"
    unfolding s by simp
  have p: "parseLine (ascii ''A B [p] /first/'') = Some first_entry"
    by code_simp
  have w: "last_write (insertions collision_raw) (ascii ''B'') = Some second_entry"
    by code_simp
  have e: "simplified first_entry = traditional second_entry"
    by (simp add: first_entry_def second_entry_def)
  have t: "\<forall>line \<in> set (split NEWLINE collision_raw). \<forall>e. parseLine line = Some e \<longrightarrow>
            map_has (entries (build collision_raw new_Dictionary)) (traditional e)
            \<and> map_has (entries (build collision_raw new_Dictionary)) (simplified e)"
    and g: "map_get (entries (build collision_raw new_Dictionary)) (ascii ''B'') =
            last_write (insertions collision_raw) (ascii ''B'')"
    using dual_key_last_write_wins [of collision_raw "ascii ''B''"] by blast+
  from t l p have "map_has (entries (build collision_raw new_Dictionary)) (traditional first_entry)
      \<and> map_has (entries (build collision_raw new_Dictionary)) (simplified first_entry)"
    by blast
  with l p e g w show ?thesis by simp
qed

subsection \<open>The longest key\<close>

lemma fold_longest:
  "fold (\<lambda>key maxLen. if length key > maxLen then length key else maxLen) ks a =
     Max (insert a (length ` set ks))"
proof (induction ks arbitrary: a)
  case Nil
  then show ?case by simp
next
  case (Cons k ks)
  have f: "(if length k > a then length k else a) = max a (length k)"
    by (auto simp: max_def)
  have "Max (insert (max a (length k)) (length ` set ks)) =
        Max (insert a (insert (length k) (length ` set ks)))"
  proof (cases "ks = []")
    case True
    then show ?thesis by simp
  next
    case False
    then have ne: "length ` set ks \<noteq> {}" by simp
    have fin: "finite (length ` set ks)" by simp
    show ?thesis
      by (simp only: Max_insert [OF fin ne] Max_insert [OF finite.insertI [OF fin] insert_not_empty] max.assoc)
  qed
  then show ?case
    by (simp only: fold_simps f Cons.IH list.set image_insert)
qed

lemma longest_key_Max: "longest_key ks = Max (insert 0 (length ` set ks))"
  by (simp add: longest_key_def fold_longest)

lemma longest_key_ge: "k \<in> set ks \<Longrightarrow> length k \<le> longest_key ks"
  by (simp add: longest_key_Max)

lemma built_key_le_max:
  "k \<in> set (map_keys (entries (build rawData d))) \<Longrightarrow> length k \<le> maxKeyLength (build rawData d)"
  by (simp add: maxKeyLength_build longest_key_ge)

lemma build_astral:
  "build astral_raw new_Dictionary =
      \<lparr>entries = [([0xD840, 0xDC00],
          \<lparr>traditional = [0xD840, 0xDC00], simplified = [0xD840, 0xDC00],
           pinyin = ascii ''x'', definitions = [ascii ''y'']\<rparr>)],
       isInitialized = True, maxKeyLength = 2\<rparr>"
  by code_simp

text \<open>
  C6, as amended. After the construction \<^verbatim>\<open>maxKeyLength\<close> is the greatest length of a key
  of the mapping, where the length of a key is \<^verbatim>\<open>key.length\<close>, its number of UTF-16 code
  units, and it is 0 when the mapping is empty.
\<close>

theorem key_length_in_code_units:
  fixes rawData :: jsstring
  defines "d \<equiv> build rawData new_Dictionary"
  shows "maxKeyLength d =
     (if entries d = [] then 0 else Max (length ` set (map_keys (entries d))))"
proof (cases "entries d = []")
  case True
  then have "map_keys (entries d) = []" by (simp add: map_keys_def)
  then have "maxKeyLength d = 0"
    unfolding d_def by (simp add: maxKeyLength_build longest_key_def)
  with True show ?thesis by simp
next
  case False
  then have ne: "length ` set (map_keys (entries d)) \<noteq> {}"
    by (simp add: map_keys_def)
  have "maxKeyLength d = Max (insert 0 (length ` set (map_keys (entries d))))"
    unfolding d_def by (simp add: maxKeyLength_build longest_key_Max)
  also have "\<dots> = max 0 (Max (length ` set (map_keys (entries d))))"
    using ne by (subst Max_insert) simp_all
  finally show ?thesis using False by simp
qed

text \<open>
  The claim as stated fails for a headword outside the Basic Multilingual Plane: the only
  key is one character long, and \<^verbatim>\<open>maxKeyLength\<close> is 2.
\<close>

theorem key_length_counterexample:
  "map_keys (entries (build astral_raw new_Dictionary)) = [[0xD840, 0xDC00]]
   \<and> decode_utf16 [0xD840, 0xDC00] = [0x20000]
   \<and> longest_key_in_characters (map_keys (entries (build astral_raw new_Dictionary))) = 1
   \<and> maxKeyLength (build astral_raw new_Dictionary) = 2"
  by (simp add: build_astral map_keys_def longest_key_in_characters_def char_length_def
      is_high_surrogate_def is_low_surrogate_def)

subsection \<open>The longest match\<close>

lemma scan_lengths_finds:
  "1 \<le> L \<Longrightarrow> L \<le> n \<Longrightarrow> i + L \<le> length t \<Longrightarrow>
   map_has (entries d) (substring t i (i + L)) \<Longrightarrow>
   \<exists>m. scan_lengths d t i n = Some m \<and> L \<le> length m"
proof (induction n)
  case 0
  then show ?case by simp
next
  case (Suc n)
  show ?case
  proof (cases "i + Suc n \<le> length t \<and> map_has (entries d) (substring t i (i + Suc n))")
    case True
    then have "length (substring t i (i + Suc n)) = Suc n"
      using length_substring_slice [of i "Suc n" t] by simp
    with True Suc.prems(2) show ?thesis by simp
  next
    case False
    with Suc.prems have "L \<noteq> Suc n" by auto
    with Suc.prems(2) have "L \<le> n" by simp
    from Suc.IH [OF Suc.prems(1) this Suc.prems(3,4)] False show ?thesis by auto
  qed
qed

lemma scan_lengths_None:
  "(\<forall>L. 1 \<le> L \<and> L \<le> n \<and> i + L \<le> length t \<longrightarrow> \<not> map_has (entries d) (substring t i (i + L)))
   \<Longrightarrow> scan_lengths d t i n = None"
proof (induction n)
  case 0
  then show ?case by simp
next
  case (Suc n)
  then have "scan_lengths d t i n = None" by simp
  moreover have "\<not> (i + Suc n \<le> length t \<and> map_has (entries d) (substring t i (i + Suc n)))"
    using Suc.prems by (metis le_refl One_nat_def Suc_le_mono le0)
  ultimately show ?case by simp
qed

lemma key_matches_Some:
  "findLongestMatch d t i = Some m \<Longrightarrow> key_matches d t i m"
  using findLongestMatch_Some [of d t i m] substring_slice [of i "length m" t]
  by (simp add: key_matches_def)

lemma built_finds:
  assumes k: "key_matches (build rawData new_Dictionary) t i k"
  shows "\<exists>m. findLongestMatch (build rawData new_Dictionary) t i = Some m \<and> length k \<le> length m"
proof -
  let ?d = "build rawData new_Dictionary"
  from k have key: "k \<in> set (map_keys (entries ?d))" and fits: "i + length k \<le> length t"
    and has: "map_has (entries ?d) (substring t i (i + length k))"
    by (simp_all add: key_matches_def map_has_iff)
  from key have "k \<noteq> []" by (rule built_keys_not_empty)
  then have 1: "1 \<le> length k" by (cases k) simp_all
  from key have 2: "length k \<le> maxKeyLength ?d" by (rule built_key_le_max)
  from scan_lengths_finds [OF 1 2 fits has] isInitialized_build [of rawData new_Dictionary]
  show ?thesis
    by (simp add: findLongestMatch_def)
qed

lemma build_example: "build example_raw new_Dictionary = example_Dictionary"
  by code_simp

text \<open>
  C1. For the index built from any raw text, every text and every position \<open>i\<close>: when some
  key matches at \<open>i\<close> within the bounds of the text, \<^verbatim>\<open>findLongestMatch\<close> returns a key that
  matches at \<open>i\<close> and no matching key is longer; when no length from 1 to \<^verbatim>\<open>maxKeyLength\<close>
  gives a substring within bounds that is a key, it returns null.
\<close>

theorem maximal_munch:
  fixes rawData :: jsstring
  defines "d \<equiv> build rawData new_Dictionary"
  shows "((\<exists>k. key_matches d text i k) \<longrightarrow>
            (\<exists>m. findLongestMatch d text i = Some m \<and> key_matches d text i m
                 \<and> (\<forall>k. key_matches d text i k \<longrightarrow> length k \<le> length m)))
       \<and> ((\<forall>L. 1 \<le> L \<and> L \<le> maxKeyLength d \<and> i + L \<le> length text
               \<longrightarrow> \<not> map_has (entries d) (substring text i (i + L)))
            \<longrightarrow> findLongestMatch d text i = None)"
proof (intro conjI impI)
  assume "\<exists>k. key_matches d text i k"
  then obtain k0 where k0: "key_matches d text i k0" by blast
  from built_finds [OF k0 [unfolded d_def]] obtain m where
    m: "findLongestMatch d text i = Some m"
    unfolding d_def by blast
  have "\<forall>k. key_matches d text i k \<longrightarrow> length k \<le> length m"
    using built_finds [of rawData "text" i] m unfolding d_def by fastforce
  with m key_matches_Some [OF m]
  show "\<exists>m. findLongestMatch d text i = Some m \<and> key_matches d text i m
                 \<and> (\<forall>k. key_matches d text i k \<longrightarrow> length k \<le> length m)"
    by blast
next
  assume "\<forall>L. 1 \<le> L \<and> L \<le> maxKeyLength d \<and> i + L \<le> length text
               \<longrightarrow> \<not> map_has (entries d) (substring text i (i + L))"
  from scan_lengths_None [OF this] show "findLongestMatch d text i = None"
    by (simp add: findLongestMatch_def)
qed

theorem maximal_munch_witness:
  "key_matches (build example_raw new_Dictionary) example_text 3 [0x5BB6, 0x5177]
   \<and> findLongestMatch (build example_raw new_Dictionary) example_text 3 = Some [0x5BB6, 0x5177]
   \<and> \<not> map_has (entries (build example_raw new_Dictionary)) (substring example_text 0 1)
   \<and> \<not> map_has (entries (build example_raw new_Dictionary)) (substring example_text 0 2)
   \<and> maxKeyLength (build example_raw new_Dictionary) = 2
   \<and> findLongestMatch (build example_raw new_Dictionary) example_text 0 = None"
proof -
  let ?d = "build example_raw new_Dictionary"
  have k: "key_matches ?d example_text 3 [0x5BB6, 0x5177]"
    unfolding build_example by code_simp
  have n1: "\<not> map_has (entries ?d) (substring example_text 0 1)"
    unfolding build_example by code_simp
  have n2: "\<not> map_has (entries ?d) (substring example_text 0 2)"
    unfolding build_example by code_simp
  have mx: "maxKeyLength ?d = 2"
    unfolding build_example by code_simp
  have none: "\<forall>L. 1 \<le> L \<and> L \<le> maxKeyLength ?d \<and> 0 + L \<le> length example_text
               \<longrightarrow> \<not> map_has (entries ?d) (substring example_text 0 (0 + L))"
  proof (intro allI impI)
    fix L :: nat
    assume "1 \<le> L \<and> L \<le> maxKeyLength ?d \<and> 0 + L \<le> length example_text"
    with mx have "L = 1 \<or> L = 2" by auto
    with n1 n2 show "\<not> map_has (entries ?d) (substring example_text 0 (0 + L))" by auto
  qed
  from maximal_munch [of example_raw example_text 3] k obtain m where
    m: "findLongestMatch ?d example_text 3 = Some m" "key_matches ?d example_text 3 m"
       "length [0x5BB6, 0x5177 :: code_unit] \<le> length m"
    by blast
  have "findLongestMatch ?d example_text 3 = Some [0x5BB6, 0x5177]"
    unfolding build_example by code_simp
  moreover from maximal_munch [of example_raw example_text 0] none
  have "findLongestMatch ?d example_text 0 = None" by blast
  ultimately show ?thesis using k n1 n2 mx by simp
qed

subsection \<open>Code units and characters\<close>

lemma unat_code_unit_less: "unat (c :: code_unit) < 0x10000"
  using unsigned_less [of c, where 'a = nat] by simp

lemma unat_code_unit_inj: "unat (a :: code_unit) = unat b \<Longrightarrow> a = b"
  by (simp add: word_unat_eq_iff)

lemma high_surrogate_is_surrogate: "is_high_surrogate c \<Longrightarrow> is_surrogate c"
  by (auto simp: is_high_surrogate_def is_surrogate_def word_le_nat_alt)

lemma decode_bmp: "list_all (\<lambda>c. \<not> is_surrogate c) s \<Longrightarrow> decode_utf16 s = map unat s"
  by (induction s rule: decode_utf16.induct) (auto dest: high_surrogate_is_surrogate)

lemma decode_eq_units: "decode_utf16 k = map unat s \<Longrightarrow> k = s"
proof (induction k arbitrary: s rule: decode_utf16.induct)
  case 1
  then show ?case by simp
next
  case (2 c)
  then show ?case by (cases s) (auto dest: unat_code_unit_inj)
next
  case (3 c1 c2 cs)
  show ?case
  proof (cases "is_high_surrogate c1 \<and> is_low_surrogate c2")
    case True
    from "3.prems" True obtain c' s' where s: "s = c' # s'"
      by (cases s) auto
    with "3.prems" True
    have "0x10000 + (unat c1 - 0xD800) * 0x400 + (unat c2 - 0xDC00) = unat c'"
      by simp
    with unat_code_unit_less [of c'] show ?thesis by simp
  next
    case False
    with "3.prems" obtain s' where s: "s = c1 # s'" and "decode_utf16 (c2 # cs) = map unat s'"
      by (cases s) (auto dest: unat_code_unit_inj)
    with "3.IH"(2) [OF False, of s'] show ?thesis by simp
  qed
qed

lemma bmp_matches_agree:
  assumes bmp: "list_all (\<lambda>c. \<not> is_surrogate c) t"
  shows "char_match_at d t i \<longleftrightarrow> code_unit_match_at d t i"
proof -
  have dt: "decode_utf16 t = map unat t"
    using bmp by (rule decode_bmp)
  have "(i + char_length k \<le> char_length t
          \<and> take (char_length k) (drop i (decode_utf16 t)) = decode_utf16 k)
        \<longleftrightarrow> (i + length k \<le> length t \<and> take (length k) (drop i t) = k)" for k
  proof
    assume a: "i + char_length k \<le> char_length t
          \<and> take (char_length k) (drop i (decode_utf16 t)) = decode_utf16 k"
    then have "decode_utf16 k = map unat (take (char_length k) (drop i t))"
      by (simp add: dt take_map drop_map)
    then have k: "k = take (char_length k) (drop i t)"
      by (rule decode_eq_units)
    from a have fits: "i + char_length k \<le> length t"
      by (simp add: char_length_def dt)
    have "length k = length (take (char_length k) (drop i t))"
      using k by simp
    also have "\<dots> = char_length k"
      using fits by simp
    finally have "length k = char_length k" .
    with k fits show "i + length k \<le> length t \<and> take (length k) (drop i t) = k"
      by simp
  next
    assume a: "i + length k \<le> length t \<and> take (length k) (drop i t) = k"
    then have "set k \<subseteq> set t"
      by (metis set_take_subset set_drop_subset subset_trans)
    with bmp have "list_all (\<lambda>c. \<not> is_surrogate c) k"
      by (auto simp: list_all_iff)
    then have dk: "decode_utf16 k = map unat k"
      by (rule decode_bmp)
    then have "char_length k = length k"
      by (simp add: char_length_def)
    with a dk dt show "i + char_length k \<le> char_length t
          \<and> take (char_length k) (drop i (decode_utf16 t)) = decode_utf16 k"
      by (simp add: char_length_def take_map drop_map)
  qed
  then show ?thesis
    by (simp add: char_match_at_def code_unit_match_at_def)
qed

lemma built_match_iff:
  "findLongestMatch (build rawData new_Dictionary) t i \<noteq> None
     \<longleftrightarrow> code_unit_match_at (build rawData new_Dictionary) t i"
proof
  let ?d = "build rawData new_Dictionary"
  assume "findLongestMatch ?d t i \<noteq> None"
  then obtain m where m: "findLongestMatch ?d t i = Some m" by auto
  from findLongestMatch_Some [OF m]
  have "m \<in> set (map_keys (entries ?d))" "i + length m \<le> length t"
     "take (length m) (drop i t) = m"
    by (simp_all add: map_has_iff)
  then show "code_unit_match_at ?d t i"
    unfolding code_unit_match_at_def list_ex_iff by blast
next
  let ?d = "build rawData new_Dictionary"
  assume "code_unit_match_at ?d t i"
  then obtain k where "k \<in> set (map_keys (entries ?d))" "i + length k \<le> length t"
     "take (length k) (drop i t) = k"
    unfolding code_unit_match_at_def list_ex_iff by blast
  then have "key_matches ?d t i k"
    by (simp add: key_matches_def map_has_iff substring_slice)
  from built_finds [OF this] show "findLongestMatch ?d t i \<noteq> None"
    by auto
qed

lemma decode_astral_text: "decode_utf16 astral_text = [0x20000, 0x597D]"
  by (simp add: astral_text_def is_high_surrogate_def is_low_surrogate_def)

lemma decode_hao: "decode_utf16 [0x597D] = [0x597D]"
  by simp

lemma build_hao:
  "build hao_raw new_Dictionary =
      \<lparr>entries = [([0x597D],
          \<lparr>traditional = [0x597D], simplified = [0x597D],
           pinyin = ascii ''hao3'', definitions = [ascii ''good'']\<rparr>)],
       isInitialized = True, maxKeyLength = 1\<rparr>"
  by code_simp

text \<open>
  C7, as amended. \<^verbatim>\<open>findLongestMatch\<close> takes positions and lengths as counts of UTF-16
  code units: on a built index it returns a match exactly when some key equals the code
  units of the text that begin at code unit position \<open>i\<close>, as many as the key has. For a
  text without surrogate code units (every character in the Basic Multilingual Plane)
  that is the same as: some key equals the characters of the text that begin at
  character position \<open>i\<close>.
\<close>

theorem code_unit_positions:
  fixes rawData :: jsstring
  defines "d \<equiv> build rawData new_Dictionary"
  shows "(findLongestMatch d text i \<noteq> None \<longleftrightarrow> code_unit_match_at d text i)
       \<and> (list_all (\<lambda>c. \<not> is_surrogate c) text \<longrightarrow>
            (findLongestMatch d text i \<noteq> None \<longleftrightarrow> char_match_at d text i))"
  unfolding d_def
  using built_match_iff [of rawData "text" i]
    bmp_matches_agree [of "text" "build rawData new_Dictionary" i]
  by blast

theorem code_unit_positions_witness:
  "list_all (\<lambda>c. \<not> is_surrogate c) example_text
   \<and> findLongestMatch (build example_raw new_Dictionary) example_text 3 \<noteq> None
   \<and> char_match_at (build example_raw new_Dictionary) example_text 3
   \<and> code_unit_match_at (build example_raw new_Dictionary) example_text 3"
proof -
  have b: "list_all (\<lambda>c. \<not> is_surrogate c) example_text"
    by (simp add: example_text_def is_surrogate_def)
  have f: "findLongestMatch (build example_raw new_Dictionary) example_text 3 \<noteq> None"
    unfolding build_example by code_simp
  from code_unit_positions [of example_raw example_text 3] b f
  show ?thesis by simp
qed

text \<open>
  The claim as stated fails on a text with a character outside the Basic Multilingual
  Plane: in the text U+20000 U+597D the key U+597D is the character at character
  position 1, and \<^verbatim>\<open>findLongestMatch\<close> at 1 returns null (code unit 1 is the low
  surrogate).
\<close>

theorem character_position_counterexample:
  "1 \<le> char_length astral_text
   \<and> char_match_at (build hao_raw new_Dictionary) astral_text 1
   \<and> findLongestMatch (build hao_raw new_Dictionary) astral_text 1 = None"
proof -
  have "findLongestMatch (build hao_raw new_Dictionary) astral_text 1 = None"
    unfolding build_hao by code_simp
  then show ?thesis
    by (simp add: build_hao char_match_at_def char_length_def map_keys_def
        decode_astral_text decode_hao)
qed

end
